theory Spec2Isabelle
  imports Complex_Main "HOL-Library.Word" "HOL-Library.Log_Nat"
begin

unbundle bit_operations_syntax

section \<open>JavaScript values used by the gateway\<close>

text \<open>
  A JavaScript string is a sequence of UTF-16 code units (\<open>charCodeAt\<close> reads one).
  A value of type \<open>string | undefined\<close> is an option; \<open>undefined\<close> and the empty
  string are the two falsy values of that type.
\<close>

type_synonym jsstring = "16 word list"

definition truthy :: "jsstring option \<Rightarrow> bool" where
  "truthy v = (case v of None \<Rightarrow> False | Some s \<Rightarrow> s \<noteq> [])"

text \<open>\<open>a || b\<close> on \<open>string | undefined\<close>.\<close>

definition js_or :: "jsstring option \<Rightarrow> jsstring option \<Rightarrow> jsstring option" where
  "js_or a b = (if truthy a then a else b)"

text \<open>
  The part of an Express request the gateway reads: \<open>req.header("X-Client-ID")\<close>
  and \<open>req.ip\<close>.
\<close>

record Request =
  header_X_Client_ID :: "jsstring option"
  ip :: "jsstring option"

text \<open>\<open>req.header("X-Client-ID") || req.ip\<close>, the first line of every limiter.\<close>

definition clientIP :: "Request \<Rightarrow> jsstring option" where
  "clientIP req = js_or (header_X_Client_ID req) (ip req)"

text \<open>
  What a middleware does with the request: it calls \<open>next()\<close>, or it answers
  \<open>res.status(code).json({error: message})\<close>.
\<close>

datatype Outcome = Next | StatusJson nat string

section \<open>JavaScript numbers\<close>

text \<open>
  A JavaScript number is an IEEE 754 binary64 value, and every arithmetic operation
  returns the exact result rounded to the nearest such value, ties going to the even
  significand. Finite numbers are modelled by their exact rational value; \<open>binary64\<close>
  is the rounding. Integers and times are numbers too, but below \<open>2^53\<close> in magnitude
  they and their sums and differences are exact, so the code that only counts or
  subtracts times is modelled on \<open>int\<close>. A result of magnitude \<open>2^1024\<close> or more, which
  the code would hold as \<open>Infinity\<close>, is outside the model.

  \<open>roundHalfEven\<close> rounds a rational to the nearest integer, a tie to the even one.
\<close>

definition roundHalfEven :: "rat \<Rightarrow> int" where
  "roundHalfEven z =
     (let f = \<lfloor>z\<rfloor>; r = z - of_int f
      in if r < 1 / 2 then f else if r > 1 / 2 then f + 1 else if even f then f else f + 1)"

text \<open>
  For \<open>x > 0\<close>, \<open>expo x\<close> is the exponent \<open>e\<close> with \<open>2^e \<le> x < 2^(e+1)\<close>: with \<open>x = a / b\<close>
  in lowest terms it is the difference of the bit lengths of \<open>a\<close> and \<open>b\<close> or one less.
\<close>

definition expo :: "rat \<Rightarrow> int" where
  "expo x =
     (let (a, b) = quotient_of x; e0 = bitlen a - bitlen b
      in if 2 powi e0 \<le> x then e0 else e0 - 1)"

text \<open>
  The exponent of the unit in the last place: 52 below the exponent of the number for
  a normal number, \<open>-1074\<close> for a subnormal one.
\<close>

definition ulpExp :: "rat \<Rightarrow> int" where
  "ulpExp x = max (expo \<bar>x\<bar> - 52) (- 1074)"

text \<open>The nearest binary64 value: the significand rounded to an integer at that unit.\<close>

definition binary64 :: "rat \<Rightarrow> rat" where
  "binary64 x =
     (if x = 0 then 0
      else of_int (roundHalfEven (x / 2 powi ulpExp x)) * 2 powi ulpExp x)"

section \<open>Fixed window limiter (middleware/fixedWindow.ts)\<close>

record ClientRecord =
  count :: int
  windowStart :: int

definition WINDOW_SIZE_IN_MS :: int where
  "WINDOW_SIZE_IN_MS = 60000"

definition MAX_REQUESTS_PER_WINDOW :: int where
  "MAX_REQUESTS_PER_WINDOW = 5"

text \<open>
  \<open>rateLimiter req currentTime clients\<close>: the module's \<open>clients\<close> map is passed in and
  returned; \<open>currentTime\<close> is what \<open>Date.now()\<close> returned (milliseconds).
\<close>

definition rateLimiter ::
  "Request \<Rightarrow> int \<Rightarrow> (jsstring \<rightharpoonup> ClientRecord) \<Rightarrow> Outcome \<times> (jsstring \<rightharpoonup> ClientRecord)" where
  "rateLimiter req currentTime clients =
     (case clientIP req of
        None \<Rightarrow> (StatusJson 400 ''Unable to determine client IP'', clients)
      | Some k \<Rightarrow>
          if k = [] then (StatusJson 400 ''Unable to determine client IP'', clients)
          else
            (case clients k of
               None \<Rightarrow> (Next, clients(k \<mapsto> \<lparr>count = 1, windowStart = currentTime\<rparr>))
             | Some record \<Rightarrow>
                 if currentTime - windowStart record > WINDOW_SIZE_IN_MS
                 then (Next, clients(k \<mapsto> record\<lparr>count := 1, windowStart := currentTime\<rparr>))
                 else if count record < MAX_REQUESTS_PER_WINDOW
                 then (Next, clients(k \<mapsto> record\<lparr>count := count record + 1\<rparr>))
                 else (StatusJson 429 ''Rate limit exceeded'', clients)))"

section \<open>Sliding window log limiter (middleware/slidingWindow.ts)\<close>

definition WINDOW_SIZE :: int where
  "WINDOW_SIZE = 5000"

definition MAX_REQUESTS :: nat where
  "MAX_REQUESTS = 2"

definition slidingWindowLogRateLimiter ::
  "Request \<Rightarrow> int \<Rightarrow> (jsstring \<rightharpoonup> int list) \<Rightarrow> Outcome \<times> (jsstring \<rightharpoonup> int list)" where
  "slidingWindowLogRateLimiter req now clients =
     (case clientIP req of
        None \<Rightarrow> (StatusJson 400 ''Unable to determine client ID'', clients)
      | Some k \<Rightarrow>
          if k = [] then (StatusJson 400 ''Unable to determine client ID'', clients)
          else
            (let timestamps = (case clients k of None \<Rightarrow> [] | Some ts \<Rightarrow> ts);
                 freshTimestamps = filter (\<lambda>ts. now - ts \<le> WINDOW_SIZE) timestamps
             in if length freshTimestamps \<ge> MAX_REQUESTS
                then (StatusJson 429 ''Rate limit exceeded'', clients)
                else (Next, clients(k \<mapsto> freshTimestamps @ [now]))))"

section \<open>Leaky bucket limiter\<close>

record LeakyBucket =
  queue :: int
  lastLeak :: int

definition LEAKY_BUCKET_CAPACITY :: int where
  "LEAKY_BUCKET_CAPACITY = 5"

definition LEAK_RATE :: rat where
  "LEAK_RATE = 1"

text \<open>
  \<open>elapsedSeconds\<close> is a quotient of integers and \<open>leaked\<close> its floor after scaling
  by the rate; both are computed here on exact rationals. A quotient by 1000 that is
  not an integer lies at least 1/1000 from the next integer, so the rounding of the
  floating-point division does not change the floor for times that are exact numbers.
\<close>

definition leaked :: "int \<Rightarrow> int \<Rightarrow> int" where
  "leaked now lastLeakAt = \<lfloor>(of_int (now - lastLeakAt) / 1000) * LEAK_RATE\<rfloor>"

definition leakyBucketRateLimiter ::
  "Request \<Rightarrow> int \<Rightarrow> (jsstring \<rightharpoonup> LeakyBucket) \<Rightarrow> Outcome \<times> (jsstring \<rightharpoonup> LeakyBucket)" where
  "leakyBucketRateLimiter req now clients =
     (case clientIP req of
        None \<Rightarrow> (StatusJson 400 ''No client ID'', clients)
      | Some k \<Rightarrow>
          if k = [] then (StatusJson 400 ''No client ID'', clients)
          else
            (let bucket = (case clients k of
                             None \<Rightarrow> \<lparr>queue = 0, lastLeak = now\<rparr>
                           | Some b \<Rightarrow> b);
                 bucket1 = bucket\<lparr>queue := max 0 (queue bucket - leaked now (lastLeak bucket)),
                                  lastLeak := now\<rparr>
             in if queue bucket1 < LEAKY_BUCKET_CAPACITY
                then (Next, clients(k \<mapsto> bucket1\<lparr>queue := queue bucket1 + 1\<rparr>))
                else (StatusJson 429 ''Rate limit exceeded'', clients(k \<mapsto> bucket1))))"

section \<open>Token bucket limiter\<close>

text \<open>
  \<open>tokens\<close> is a number that takes fractional values: the rational value of a binary64
  number. The difference of the times, the quotient by 1000, the product with the
  rate, the sum with the stored tokens and the subtraction of one token are each one
  rounded operation.
\<close>

record TokenBucket =
  tokens :: rat
  lastRefill :: int

definition REFILL_RATE :: rat where
  "REFILL_RATE = 1 / 2"

definition BUCKET_CAPACITY :: rat where
  "BUCKET_CAPACITY = 5"

definition tokenBucketRateLimiter ::
  "Request \<Rightarrow> int \<Rightarrow> (jsstring \<rightharpoonup> TokenBucket) \<Rightarrow> Outcome \<times> (jsstring \<rightharpoonup> TokenBucket)" where
  "tokenBucketRateLimiter req now clients =
     (case clientIP req of
        None \<Rightarrow> (StatusJson 400 ''No client ID'', clients)
      | Some k \<Rightarrow>
          if k = [] then (StatusJson 400 ''No client ID'', clients)
          else
            (let bucket = (case clients k of
                             None \<Rightarrow> \<lparr>tokens = BUCKET_CAPACITY, lastRefill = now\<rparr>
                           | Some b \<Rightarrow> b);
                 elapsedSeconds =
                   binary64 (binary64 (of_int now - of_int (lastRefill bucket)) / 1000);
                 bucket1 = bucket\<lparr>tokens := min BUCKET_CAPACITY
                                              (binary64 (tokens bucket + binary64 (elapsedSeconds * REFILL_RATE))),
                                  lastRefill := now\<rparr>
             in if tokens bucket1 \<ge> 1
                then (Next, clients(k \<mapsto> bucket1\<lparr>tokens := binary64 (tokens bucket1 - 1)\<rparr>))
                else (StatusJson 429 ''Rate limit exceeded'', clients(k \<mapsto> bucket1))))"

text \<open>
  A limiter called for one request at each of a list of times, the state threaded
  through; the outcomes are returned in call order.
\<close>

fun calls :: "(Request \<Rightarrow> int \<Rightarrow> 's \<Rightarrow> Outcome \<times> 's) \<Rightarrow> Request \<Rightarrow> int list \<Rightarrow> 's \<Rightarrow> Outcome list \<times> 's" where
  "calls limiter req [] s = ([], s)"
| "calls limiter req (t # ts) s =
     (let (r, s1) = limiter req t s; (rs, s2) = calls limiter req ts s1 in (r # rs, s2))"

section \<open>Load balancer (createLoadBalancer)\<close>

datatype Strategy =
    RoundRobin | Random | LeastConnections | WeightedRoundRobin
  | WeightedLeastConnections | IpHash | ConsistentHash
  | Unrecognized

text \<open>
  \<open>Unrecognized\<close> stands for any strategy string outside the union type: the code
  has a fallback branch for it.

  The ways a call can fail to produce a backend: the \<open>Error\<close> thrown at construction,
  a \<open>TypeError\<close> from reading a property of \<open>undefined\<close>, and an index read out of
  range, whose value \<open>undefined\<close> would be returned in place of a backend string.
\<close>

datatype error = NoBackendServers | TypeError | UndefinedTarget

text \<open>\<open>xs[i]\<close>: \<open>undefined\<close> out of range.\<close>

definition jsIndex :: "'a list \<Rightarrow> int \<Rightarrow> 'a option" where
  "jsIndex xs i = (if 0 \<le> i \<and> i < int (length xs) then Some (xs ! nat i) else None)"

text \<open>\<open>safeGet\<close>: \<open>servers[i % servers.length]\<close>\<close>

definition safeGet :: "jsstring list \<Rightarrow> nat \<Rightarrow> jsstring option" where
  "safeGet servers i = jsIndex servers (int (i mod length servers))"

text \<open>
  A \<open>pickTarget\<close> that ends in \<open>return t\<close>, with the captured variables as they are
  then: \<open>undefined\<close> is no backend.
\<close>

definition target :: "jsstring option \<Rightarrow> 's \<Rightarrow> error + (jsstring \<times> 's)" where
  "target t s = (case t of None \<Rightarrow> Inl UndefinedTarget | Some b \<Rightarrow> Inr (b, s))"

text \<open>
  32-bit FNV-1a over the code units. \<open>h ^= c\<close> and \<open>Math.imul(h, 16777619) >>> 0\<close> are
  exclusive or and multiplication modulo \<open>2^32\<close>.
\<close>

definition fnv1aHash :: "jsstring \<Rightarrow> 32 word" where
  "fnv1aHash str = fold (\<lambda>c h. (h XOR ucast c) * 16777619) str 2166136261"

text \<open>\<open>req.header("X-Client-ID") || req.ip || ""\<close>\<close>

definition hashKey :: "Request \<Rightarrow> jsstring" where
  "hashKey req = (case js_or (clientIP req) (Some []) of None \<Rightarrow> [] | Some k \<Rightarrow> k)"

subsection \<open>The hash ring\<close>

record RingEntry =
  hash :: "32 word"
  server :: jsstring

definition VNODE :: nat where
  "VNODE = 100"

text \<open>The decimal digits of a number, as a template literal prints it.\<close>

fun decimal :: "nat \<Rightarrow> jsstring" where
  "decimal n = (if n < 10 then [of_nat (48 + n)] else decimal (n div 10) @ [of_nat (48 + n mod 10)])"

declare decimal.simps [simp del]

text \<open>\<open>`${server}#${v}`\<close>\<close>

definition vnodeKey :: "jsstring \<Rightarrow> nat \<Rightarrow> jsstring" where
  "vnodeKey s v = s @ [35] @ decimal v"

definition ringEntries :: "jsstring list \<Rightarrow> RingEntry list" where
  "ringEntries servers =
     concat (map (\<lambda>s. map (\<lambda>v. \<lparr>hash = fnv1aHash (vnodeKey s v), server = s\<rparr>) [0..<VNODE]) servers)"

text \<open>\<open>ring.sort((a, b) => a.hash - b.hash)\<close>: a stable sort, ascending by hash.\<close>

definition buildRing :: "jsstring list \<Rightarrow> RingEntry list" where
  "buildRing servers = sort_key hash (ringEntries servers)"

text \<open>
  The \<open>while (lo < hi)\<close> loop. \<open>ring[mid]!.hash\<close> throws a \<open>TypeError\<close> when \<open>mid\<close> is
  out of range.
\<close>

function binarySearch :: "RingEntry list \<Rightarrow> 32 word \<Rightarrow> nat \<Rightarrow> nat \<Rightarrow> error + nat" where
  "binarySearch ring h lo hi =
     (if lo < hi then
        (let mid = (lo + hi) div 2 in
           if mid < length ring then
             (if hash (ring ! mid) \<ge> h then binarySearch ring h lo mid
              else binarySearch ring h (mid + 1) hi)
           else Inl TypeError)
      else Inr lo)"
  by pat_completeness auto
termination
  by (relation "measure (\<lambda>(ring, h, lo, hi). hi - lo)") auto

declare binarySearch.simps [simp del]

text \<open>The body of the consistent-hash \<open>pickTarget\<close> after the key is hashed to \<open>h\<close>.\<close>

definition ringLookup :: "jsstring list \<Rightarrow> RingEntry list \<Rightarrow> 32 word \<Rightarrow> error + jsstring" where
  "ringLookup servers ring h =
     (case ring of
        [] \<Rightarrow> (case jsIndex servers 0 of None \<Rightarrow> Inl UndefinedTarget | Some s \<Rightarrow> Inr s)
      | e0 # _ \<Rightarrow>
          (let hi = length ring - 1 in
             if h \<le> hash e0 \<or> h > hash (ring ! hi) then Inr (server e0)
             else
               (case binarySearch ring h 0 hi of
                  Inl e \<Rightarrow> Inl e
                | Inr lo \<Rightarrow> if lo < length ring then Inr (server (ring ! lo)) else Inl TypeError)))"

text \<open>
  The reference lookup, in the words of the specification: the first ring entry, in ring
  order, whose hash is at least the key's hash; the first entry of the ring when there
  is none.
\<close>

definition spec_firstAtLeast :: "RingEntry list \<Rightarrow> 32 word \<Rightarrow> jsstring option" where
  "spec_firstAtLeast ring h =
     (case find (\<lambda>e. h \<le> hash e) ring of
        Some e \<Rightarrow> Some (server e)
      | None \<Rightarrow> (case ring of [] \<Rightarrow> None | e0 # _ \<Rightarrow> Some (server e0)))"

subsection \<open>Smooth weighted round robin\<close>

text \<open>\<open>ws[i] ?? 1\<close>\<close>

definition wAt :: "int list \<Rightarrow> nat \<Rightarrow> int" where
  "wAt ws i = (if i < length ws then ws ! i else 1)"

text \<open>
  The first loop: \<open>current[i] += ws[i] ?? 1\<close> for \<open>i < n\<close>. \<open>current\<close> is created with
  \<open>n\<close> entries and keeps that length.
\<close>

definition addWeights :: "nat \<Rightarrow> int list \<Rightarrow> int list \<Rightarrow> int list" where
  "addWeights n ws current = map (\<lambda>i. current ! i + wAt ws i) [0..<n]"

definition totalWeight :: "nat \<Rightarrow> int list \<Rightarrow> int" where
  "totalWeight n ws = sum_list (map (wAt ws) [0..<n])"

text \<open>The second loop: \<open>best\<close> moves only to a strictly greater counter.\<close>

definition bestIndex :: "nat \<Rightarrow> int list \<Rightarrow> nat" where
  "bestIndex n current = fold (\<lambda>i best. if current ! i > current ! best then i else best) [1..<n] 0"

definition weightedRoundRobin ::
  "jsstring list \<Rightarrow> int list \<Rightarrow> int list \<Rightarrow> jsstring option \<times> int list" where
  "weightedRoundRobin servers ws current =
     (let n = length servers;
          current1 = addWeights n ws current;
          total = totalWeight n ws;
          best = bestIndex n current1;
          current2 = current1[best := current1 ! best - total]
      in (jsIndex servers (int best), current2))"

subsection \<open>Least connections\<close>

text \<open>\<open>counts.get(s) ?? 0\<close> and \<open>counts.get(s) ?? 1\<close>\<close>

definition getOr :: "(jsstring \<rightharpoonup> int) \<Rightarrow> jsstring \<Rightarrow> int \<Rightarrow> int" where
  "getOr counts s d = (case counts s of None \<Rightarrow> d | Some c \<Rightarrow> c)"

definition initialCounts :: "jsstring list \<Rightarrow> (jsstring \<rightharpoonup> int)" where
  "initialCounts servers = fold (\<lambda>s counts. counts(s \<mapsto> 0)) servers Map.empty"

definition leastConnections ::
  "jsstring list \<Rightarrow> (jsstring \<rightharpoonup> int) \<Rightarrow> jsstring option \<times> (jsstring \<rightharpoonup> int)" where
  "leastConnections servers counts =
     (case servers of
        [] \<Rightarrow> (None, counts)
      | s0 # _ \<Rightarrow>
          (let (best, bestCount) =
                 fold (\<lambda>s (best, bestCount).
                         let c = getOr counts s 0 in
                         if c < bestCount then (s, c) else (best, bestCount))
                      servers (s0, getOr counts s0 0)
           in (Some best, counts(best \<mapsto> getOr counts best 0 + 1))))"

text \<open>
  \<open>ws[i] || 1\<close>: the weight, or 1 when it is missing or zero. The score is the
  rounded quotient of the count by the weight.
\<close>

definition wOr1 :: "int list \<Rightarrow> nat \<Rightarrow> int" where
  "wOr1 ws i = (if i < length ws \<and> ws ! i \<noteq> 0 then ws ! i else 1)"

definition score :: "(jsstring \<rightharpoonup> int) \<Rightarrow> int list \<Rightarrow> jsstring \<Rightarrow> nat \<Rightarrow> rat" where
  "score counts ws s i = binary64 (of_int (getOr counts s 0) / of_int (wOr1 ws i))"

definition weightedLeastConnections ::
  "jsstring list \<Rightarrow> int list \<Rightarrow> (jsstring \<rightharpoonup> int) \<Rightarrow> jsstring option \<times> (jsstring \<rightharpoonup> int)" where
  "weightedLeastConnections servers ws counts =
     (case servers of
        [] \<Rightarrow> (None, counts)
      | s0 # _ \<Rightarrow>
          (let (best, bestScore) =
                 fold (\<lambda>i (best, bestScore).
                         let s = servers ! i; sc = score counts ws s i in
                         if sc < bestScore then (s, sc) else (best, bestScore))
                      [1..<length servers] (s0, score counts ws s0 0)
           in (Some best, counts(best \<mapsto> getOr counts best 0 + 1))))"

text \<open>\<open>counts.set(target, Math.max(0, (counts.get(target) ?? 1) - 1))\<close>\<close>

definition releaseCount :: "(jsstring \<rightharpoonup> int) \<Rightarrow> jsstring \<Rightarrow> (jsstring \<rightharpoonup> int)" where
  "releaseCount counts t = counts(t \<mapsto> max 0 (getOr counts t 1 - 1))"

subsection \<open>The balancer object\<close>

text \<open>
  The object \<open>createLoadBalancer\<close> returns, with the variables its closures capture:
  the servers, and per strategy the cursor, the running counters, the connection
  counts or the ring.
\<close>

datatype LoadBalancer =
    RandomLB "jsstring list"
  | RoundRobinLB "jsstring list" nat
  | WeightedRoundRobinLB "jsstring list" "int list" "int list"
  | LeastConnectionsLB "jsstring list" "jsstring \<rightharpoonup> int"
  | WeightedLeastConnectionsLB "jsstring list" "int list" "jsstring \<rightharpoonup> int"
  | IpHashLB "jsstring list"
  | ConsistentHashLB "jsstring list" "RingEntry list"

text \<open>
  \<open>weights && weights.length === servers.length ? weights : servers.map(() => 1)\<close>
\<close>

definition ensureWeights :: "jsstring list \<Rightarrow> int list option \<Rightarrow> int list" where
  "ensureWeights servers weights =
     (case weights of
        None \<Rightarrow> map (\<lambda>_. 1) servers
      | Some w \<Rightarrow> if length w = length servers then w else map (\<lambda>_. 1) servers)"

definition createLoadBalancer ::
  "Strategy \<Rightarrow> jsstring list \<Rightarrow> int list option \<Rightarrow> error + LoadBalancer" where
  "createLoadBalancer strategy servers weights =
     (if length servers = 0 then Inl NoBackendServers
      else
        (let ws = ensureWeights servers weights in
           Inr (case strategy of
                  Random \<Rightarrow> RandomLB servers
                | RoundRobin \<Rightarrow> RoundRobinLB servers 0
                | WeightedRoundRobin \<Rightarrow> WeightedRoundRobinLB servers ws (replicate (length servers) 0)
                | LeastConnections \<Rightarrow> LeastConnectionsLB servers (initialCounts servers)
                | WeightedLeastConnections \<Rightarrow> WeightedLeastConnectionsLB servers ws (initialCounts servers)
                | IpHash \<Rightarrow> IpHashLB servers
                | ConsistentHash \<Rightarrow> ConsistentHashLB servers (buildRing servers)
                | Unrecognized \<Rightarrow> RoundRobinLB servers 0)))"

text \<open>
  \<open>pickTarget lb req u\<close>: \<open>u\<close> is the number \<open>Math.random()\<close> returns during the call
  (read by the random strategy only, which floors the rounded product with the number
  of servers). The result is the backend and the balancer with its captured variables
  updated.
\<close>

fun pickTarget :: "LoadBalancer \<Rightarrow> Request \<Rightarrow> rat \<Rightarrow> error + (jsstring \<times> LoadBalancer)" where
  "pickTarget (RandomLB servers) req u =
     target (jsIndex servers \<lfloor>binary64 (u * of_nat (length servers))\<rfloor>) (RandomLB servers)"
| "pickTarget (RoundRobinLB servers idx) req u =
     target (safeGet servers idx) (RoundRobinLB servers ((idx + 1) mod length servers))"
| "pickTarget (WeightedRoundRobinLB servers ws current) req u =
     (let (t, current2) = weightedRoundRobin servers ws current
      in target t (WeightedRoundRobinLB servers ws current2))"
| "pickTarget (LeastConnectionsLB servers counts) req u =
     (let (t, counts2) = leastConnections servers counts
      in target t (LeastConnectionsLB servers counts2))"
| "pickTarget (WeightedLeastConnectionsLB servers ws counts) req u =
     (let (t, counts2) = weightedLeastConnections servers ws counts
      in target t (WeightedLeastConnectionsLB servers ws counts2))"
| "pickTarget (IpHashLB servers) req u =
     target (jsIndex servers (int (unat (fnv1aHash (hashKey req)) mod length servers)))
            (IpHashLB servers)"
| "pickTarget (ConsistentHashLB servers ring) req u =
     (case ringLookup servers ring (fnv1aHash (hashKey req)) of
        Inl e \<Rightarrow> Inl e
      | Inr s \<Rightarrow> Inr (s, ConsistentHashLB servers ring))"

fun release :: "LoadBalancer \<Rightarrow> jsstring \<Rightarrow> LoadBalancer" where
  "release (LeastConnectionsLB servers counts) t = LeastConnectionsLB servers (releaseCount counts t)"
| "release (WeightedLeastConnectionsLB servers ws counts) t =
     WeightedLeastConnectionsLB servers ws (releaseCount counts t)"
| "release lb t = lb"

text \<open>The connection counts a balancer holds (none for the other strategies).\<close>

fun countsOf :: "LoadBalancer \<Rightarrow> (jsstring \<rightharpoonup> int)" where
  "countsOf (LeastConnectionsLB servers counts) = counts"
| "countsOf (WeightedLeastConnectionsLB servers ws counts) = counts"
| "countsOf lb = Map.empty"

text \<open>
  A history of calls on one balancer. A \<open>pickTarget\<close> that fails leaves the captured
  variables as they were.
\<close>

datatype Call = Select Request rat | Release jsstring

fun step :: "LoadBalancer \<Rightarrow> Call \<Rightarrow> LoadBalancer" where
  "step lb (Select req u) = (case pickTarget lb req u of Inl e \<Rightarrow> lb | Inr (t, lb2) \<Rightarrow> lb2)"
| "step lb (Release t) = release lb t"

definition run :: "LoadBalancer \<Rightarrow> Call list \<Rightarrow> LoadBalancer" where
  "run lb cs = foldl step lb cs"

text \<open>Consecutive \<open>pickTarget\<close> calls, one per request; the backends in call order.\<close>

fun pickTargets :: "LoadBalancer \<Rightarrow> (Request \<times> rat) list \<Rightarrow> error + (jsstring list \<times> LoadBalancer)" where
  "pickTargets lb [] = Inr ([], lb)"
| "pickTargets lb (c # cs) =
     (case pickTarget lb (fst c) (snd c) of
        Inl e \<Rightarrow> Inl e
      | Inr (t, lb1) \<Rightarrow>
          (case pickTargets lb1 cs of
             Inl e \<Rightarrow> Inl e
           | Inr (ts, lb2) \<Rightarrow> Inr (t # ts, lb2)))"

section \<open>Notions used to state the properties\<close>

text \<open>
  Call times for one client of the leaky bucket, each closer to the one before than the
  time one request takes to leak: \<open>elapsedSeconds * LEAK_RATE < 1\<close> at every call.
  \<open>prev\<close> is the time of the call before the first.
\<close>

fun spaced :: "int \<Rightarrow> int list \<Rightarrow> bool" where
  "spaced prev [] = True"
| "spaced prev (t # ts) = ((of_int (t - prev) / 1000) * LEAK_RATE < 1 \<and> spaced t ts)"

text \<open>
  The bucket a leaky-bucket call works on: the stored one, or the one it creates for a
  client it has not seen.
\<close>

definition startBucket :: "(jsstring \<rightharpoonup> LeakyBucket) \<Rightarrow> jsstring \<Rightarrow> int \<Rightarrow> LeakyBucket" where
  "startBucket clients k now = (case clients k of None \<Rightarrow> \<lparr>queue = 0, lastLeak = now\<rparr> | Some b \<Rightarrow> b)"

text \<open>
  Some backend other than \<open>b\<close> holds a running counter strictly below the counter of
  \<open>b\<close>.
\<close>

definition lowerCounterAlternative :: "int list \<Rightarrow> nat \<Rightarrow> bool" where
  "lowerCounterAlternative current b =
     list_ex (\<lambda>j. j \<noteq> b \<and> current ! j < current ! b) [0..<length current]"

text \<open>
  What holds of a balancer built for \<open>servers\<close> after any history of calls: the captured
  server list is the one given, the round-robin cursor is inside the list, the running
  counters are as many as the servers, and the ring is the one built at construction.
\<close>

fun wellFormed :: "jsstring list \<Rightarrow> LoadBalancer \<Rightarrow> bool" where
  "wellFormed servers (RandomLB ss) = (ss = servers)"
| "wellFormed servers (RoundRobinLB ss idx) = (ss = servers \<and> idx < length servers)"
| "wellFormed servers (WeightedRoundRobinLB ss ws current) =
     (ss = servers \<and> length current = length servers)"
| "wellFormed servers (LeastConnectionsLB ss counts) = (ss = servers)"
| "wellFormed servers (WeightedLeastConnectionsLB ss ws counts) = (ss = servers)"
| "wellFormed servers (IpHashLB ss) = (ss = servers)"
| "wellFormed servers (ConsistentHashLB ss ring) = (ss = servers \<and> ring = buildRing servers)"

text \<open>The two strategies that count active connections.\<close>

fun tracksConnections :: "LoadBalancer \<Rightarrow> bool" where
  "tracksConnections (LeastConnectionsLB servers counts) = True"
| "tracksConnections (WeightedLeastConnectionsLB servers ws counts) = True"
| "tracksConnections lb = False"

text \<open>No stored connection count is below 0.\<close>

definition nonNegative :: "(jsstring \<rightharpoonup> int) \<Rightarrow> bool" where
  "nonNegative counts = (\<forall>s c. counts s = Some c \<longrightarrow> 0 \<le> c)"

section \<open>JavaScript numbers: properties\<close>

lemma roundHalfEven_bounds:
  "of_int (roundHalfEven z) \<le> z + 1 / 2" "z - 1 / 2 \<le> of_int (roundHalfEven z)"
proof -
  define f where "f = \<lfloor>z\<rfloor>"
  have f: "of_int f \<le> z" "z < of_int f + 1"
    unfolding f_def by linarith+
  have r: "roundHalfEven z = f \<and> z - of_int f \<le> 1 / 2
      \<or> roundHalfEven z = f + 1 \<and> z - of_int f \<ge> 1 / 2"
    unfolding roundHalfEven_def Let_def f_def [symmetric] by auto
  from r f show "of_int (roundHalfEven z) \<le> z + 1 / 2"
    by (elim disjE conjE) simp_all
  from r f show "z - 1 / 2 \<le> of_int (roundHalfEven z)"
    by (elim disjE conjE) simp_all
qed

lemma roundHalfEven_of_int [simp]: "roundHalfEven (of_int k) = k"
  by (simp add: roundHalfEven_def)

lemma roundHalfEven_nonneg: "0 \<le> z \<Longrightarrow> 0 \<le> roundHalfEven z"
  by (auto simp: roundHalfEven_def Let_def)

lemma roundHalfEven_le_int:
  assumes "z \<le> of_int k"
  shows "roundHalfEven z \<le> k"
proof -
  have "(of_int (roundHalfEven z) :: rat) \<le> of_int k + 1 / 2"
    using roundHalfEven_bounds(1) [of z] assms by linarith
  then have "(of_int (roundHalfEven z) :: rat) < of_int (k + 1)"
    by simp
  then have "roundHalfEven z < k + 1"
    by (simp only: of_int_less_iff)
  then show ?thesis by simp
qed

lemma expo_bounds:
  assumes "0 < x"
  shows "2 powi expo x \<le> x" "x < 2 powi (expo x + 1)"
proof -
  obtain a b where q: "quotient_of x = (a, b)"
    by (cases "quotient_of x")
  have b: "0 < b" using quotient_of_denom_pos [OF q] .
  have x: "x = of_int a / of_int b"
    using quotient_of_div [OF q] .
  have a: "0 < a"
    using assms b unfolding x by (simp add: zero_less_divide_iff)
  define la lb where "la = bitlen a" and "lb = bitlen b"
  have la1: "1 \<le> la" and lb1: "1 \<le> lb"
    using a b by (auto simp: la_def lb_def bitlen_alt_def)
  have pw: "(2::rat) powi k = 2 ^ nat k" if "0 \<le> k" for k
    using that by (simp add: power_int_def)
  have "2 ^ nat (la - 1) \<le> a" "a < 2 ^ nat la" "2 ^ nat (lb - 1) \<le> b" "b < 2 ^ nat lb"
    using bitlen_bounds [OF a] bitlen_bounds [OF b] by (simp_all add: la_def lb_def)
  then have "(of_int (2 ^ nat (la - 1)) :: rat) \<le> of_int a" "(of_int a :: rat) < of_int (2 ^ nat la)"
      "(of_int (2 ^ nat (lb - 1)) :: rat) \<le> of_int b" "(of_int b :: rat) < of_int (2 ^ nat lb)"
    by (simp_all only: of_int_le_iff of_int_less_iff)
  then have la: "(2::rat) powi (la - 1) \<le> of_int a" "of_int a < (2::rat) powi la"
   and lb: "(2::rat) powi (lb - 1) \<le> of_int b" "of_int b < (2::rat) powi lb"
    using la1 lb1 by (simp_all add: pw)
  have bpos: "(0::rat) < of_int b" and apos: "(0::rat) < of_int a"
    using a b by simp_all
  have "x < 2 powi la / of_int b"
    unfolding x using la(2) bpos by (simp add: divide_strict_right_mono)
  also have "\<dots> \<le> 2 powi la / 2 powi (lb - 1)"
    using lb(1) bpos by (intro divide_left_mono) (simp_all add: zero_less_mult_iff)
  also have "\<dots> = 2 powi (la - (lb - 1))"
    by (rule power_int_diff [symmetric]) simp
  also have "la - (lb - 1) = la - lb + 1"
    by simp
  finally have up: "x < 2 powi (la - lb + 1)" .
  have e1: "la - lb - 1 = la - 1 - lb"
    by simp
  have "2 powi (la - lb - 1) = (2::rat) powi (la - 1 - lb)"
    by (simp only: e1)
  also have "\<dots> = (2::rat) powi (la - 1) / 2 powi lb"
    by (rule power_int_diff) simp
  also have "\<dots> \<le> of_int a / 2 powi lb"
    using la(1) by (simp add: divide_right_mono)
  also have "\<dots> < of_int a / of_int b"
    using lb(2) apos bpos by (intro divide_strict_left_mono) (simp_all add: mult_pos_pos)
  finally have lo: "2 powi (la - lb - 1) < x"
    unfolding x .
  have e: "expo x = (if 2 powi (la - lb) \<le> x then la - lb else la - lb - 1)"
    by (simp add: expo_def q la_def lb_def)
  show "2 powi expo x \<le> x" "x < 2 powi (expo x + 1)"
    using up lo by (auto simp: e)
qed


lemma powi2_less_cancel:
  assumes "(2::rat) powi a < 2 powi b"
  shows "a < b"
proof (rule ccontr)
  assume "\<not> a < b"
  then have "b \<le> a" by simp
  then have "(2::rat) powi b \<le> 2 powi a"
    by (rule power_int_increasing) simp
  with assms show False by simp
qed

lemma expo_unique:
  assumes "0 < x" and "2 powi e \<le> x" and "x < 2 powi (e + 1)"
  shows "expo x = e"
proof -
  have two: "(1::rat) \<le> 2" by simp
  have "\<not> e + 1 \<le> expo x"
  proof
    assume "e + 1 \<le> expo x"
    then have "(2::rat) powi (e + 1) \<le> 2 powi expo x"
      using two by (rule power_int_increasing)
    with expo_bounds(1) [OF assms(1)] assms(3) show False by linarith
  qed
  moreover have "\<not> expo x + 1 \<le> e"
  proof
    assume "expo x + 1 \<le> e"
    then have "(2::rat) powi (expo x + 1) \<le> 2 powi e"
      using two by (rule power_int_increasing)
    with expo_bounds(2) [OF assms(1)] assms(2) show False by linarith
  qed
  ultimately show ?thesis by linarith
qed

lemma binary64_exact:
  assumes "x / 2 powi ulpExp x = of_int m"
  shows "binary64 x = x"
proof (cases "x = 0")
  case True
  then show ?thesis by (simp add: binary64_def)
next
  case False
  have "of_int m * 2 powi ulpExp x = x"
    using assms [symmetric] by simp
  then show ?thesis
    using False by (simp add: binary64_def assms)
qed

lemma binary64_representable:
  assumes "0 < k" and "k \<le> 2 ^ 53" and "- 1074 \<le> q"
  shows "binary64 (of_int k * 2 powi q) = of_int k * 2 powi q"
proof -
  define y :: rat where "y = of_int k * 2 powi q"
  have ypos: "0 < y"
    using assms(1) by (simp add: y_def)
  have ay: "\<bar>y\<bar> = y" using ypos by simp
  show ?thesis
  proof (cases "k = 2 ^ 53")
    case True
    have y2: "y = 2 powi (53 + q)"
      by (simp add: y_def True power_int_add)
    have "expo y = 53 + q"
      by (rule expo_unique [OF ypos]) (simp_all add: y2 power_int_add)
    then have u: "ulpExp y = q + 1"
      using assms(3) by (simp add: ulpExp_def ay)
    have "y / 2 powi (q + 1) = of_int (2 ^ 52)"
      by (simp add: y2 power_int_add)
    then have "y / 2 powi ulpExp y = of_int (2 ^ 52)"
      by (simp only: u)
    then show ?thesis
      unfolding y_def [symmetric] by (rule binary64_exact)
  next
    case False
    with assms(2) have "k < 2 ^ 53" by simp
    then have "(of_int k :: rat) < of_int (2 ^ 53)"
      by (simp only: of_int_less_iff)
    then have "y < 2 ^ 53 * 2 powi q"
      unfolding y_def by (simp add: mult_strict_right_mono)
    also have "\<dots> = 2 powi (53 + q)"
      by (simp add: power_int_add)
    finally have "2 powi expo y < (2::rat) powi (53 + q)"
      using expo_bounds(1) [OF ypos] by linarith
    then have "expo y < 53 + q"
      by (rule powi2_less_cancel)
    then have u: "ulpExp y \<le> q"
      using assms(3) by (simp add: ulpExp_def ay)
    define v where "v = ulpExp y"
    define d where "d = nat (q - v)"
    have q: "q = v + int d"
      using u by (simp add: d_def v_def)
    have "y = of_int k * 2 powi (v + int d)"
      unfolding y_def by (simp only: q)
    also have "\<dots> = of_int k * (2 powi v * 2 ^ d)"
      by (simp add: power_int_add)
    finally have "y / 2 powi v = of_int k * 2 ^ d"
      by simp
    also have "\<dots> = of_int (k * 2 ^ d)"
      by simp
    finally show ?thesis
      unfolding y_def [symmetric] v_def by (rule binary64_exact)
  qed
qed

lemma binary64_of_int:
  assumes "0 \<le> k" and "k \<le> 2 ^ 53"
  shows "binary64 (of_int k) = of_int k"
proof (cases "k = 0")
  case True
  then show ?thesis by (simp add: binary64_def)
next
  case False
  then have "0 < k" using assms(1) by simp
  from binary64_representable [OF this assms(2), of 0] show ?thesis by simp
qed

lemma binary64_nonpos:
  assumes "x \<le> 0"
  shows "binary64 x \<le> 0"
proof (cases "x = 0")
  case True
  then show ?thesis by (simp add: binary64_def)
next
  case False
  have "x / 2 powi ulpExp x \<le> of_int 0"
    using assms by (simp add: divide_le_0_iff)
  then have "roundHalfEven (x / 2 powi ulpExp x) \<le> 0"
    by (rule roundHalfEven_le_int)
  then have "(of_int (roundHalfEven (x / 2 powi ulpExp x)) :: rat) \<le> 0"
    by simp
  then show ?thesis
    using False by (simp add: binary64_def mult_le_0_iff)
qed

lemma binary64_shape:
  assumes "0 < x"
  shows "\<exists>m. binary64 x = of_int m * 2 powi ulpExp x \<and> 0 \<le> m \<and> m \<le> 2 ^ 53
     \<and> m = roundHalfEven (x / 2 powi ulpExp x)"
proof -
  define q where "q = ulpExp x"
  define z where "z = x / 2 powi q"
  have ax: "\<bar>x\<bar> = x" using assms by simp
  have qge: "expo x - 52 \<le> q"
    by (simp add: q_def ulpExp_def ax)
  have "z \<le> x / 2 powi (expo x - 52)"
    unfolding z_def using qge assms
    by (intro divide_left_mono power_int_increasing) (simp_all add: zero_less_mult_iff)
  also have "\<dots> < 2 powi (expo x + 1) / 2 powi (expo x - 52)"
    using expo_bounds(2) [OF assms] by (simp add: divide_strict_right_mono)
  also have "\<dots> = 2 ^ 53"
    by (simp add: power_int_diff [symmetric])
  finally have "z \<le> of_int (2 ^ 53)" by simp
  then have hi: "roundHalfEven z \<le> 2 ^ 53"
    by (rule roundHalfEven_le_int)
  have "0 \<le> z" using assms by (simp add: z_def)
  then have lo: "0 \<le> roundHalfEven z"
    by (rule roundHalfEven_nonneg)
  show ?thesis
    using assms lo hi unfolding z_def q_def by (simp add: binary64_def)
qed

lemma binary64_idem:
  assumes "0 \<le> x"
  shows "binary64 (binary64 x) = binary64 x"
proof (cases "x = 0")
  case True
  then show ?thesis by (simp add: binary64_def)
next
  case False
  then have "0 < x" using assms by simp
  from binary64_shape [OF this]
  obtain m where m: "binary64 x = of_int m * 2 powi ulpExp x" "0 \<le> m" "m \<le> 2 ^ 53"
    by blast
  have q: "- 1074 \<le> ulpExp x" by (simp add: ulpExp_def)
  show ?thesis
  proof (cases "m = 0")
    case True
    then have z: "binary64 x = 0" by (simp add: m(1))
    show ?thesis unfolding z by (simp add: binary64_def)
  next
    case False
    then have "0 < m" using m(2) by simp
    from binary64_representable [OF this m(3) q] show ?thesis
      by (simp add: m(1))
  qed
qed


lemma binary64_fixed_shape:
  assumes "0 < x" and "binary64 x = x"
  shows "\<exists>m. x = of_int m * 2 powi ulpExp x \<and> 0 \<le> m \<and> m \<le> 2 ^ 53"
  using binary64_shape [OF assms(1)] assms(2) by auto

lemma binary64_minus_one:
  assumes "binary64 x = x" and "1 \<le> x" and "x \<le> 5"
  shows "binary64 (x - 1) = x - 1"
proof -
  have xpos: "0 < x" using assms(2) by simp
  have ax: "\<bar>x\<bar> = x" using xpos by simp
  have "2 powi expo x \<le> x" "x < 2 powi (expo x + 1)"
    using expo_bounds [OF xpos] by simp_all
  then have p: "(2::rat) powi expo x < 2 powi 3" "(2::rat) powi 0 < 2 powi (expo x + 1)"
    using assms(2,3) by simp_all
  have "expo x < 3"
    using p(1) by (rule powi2_less_cancel)
  moreover have "0 < expo x + 1"
    using p(2) by (rule powi2_less_cancel)
  ultimately have e: "0 \<le> expo x" "expo x \<le> 2"
    by simp_all
  define d where "d = nat (52 - expo x)"
  have u: "ulpExp x = - int d"
    using e by (simp add: ulpExp_def ax d_def)
  from binary64_fixed_shape [OF xpos assms(1)]
  obtain m where m: "x = of_int m * 2 powi (- int d)" "0 \<le> m" "m \<le> 2 ^ 53"
    unfolding u by blast
  have one: "(1::rat) = of_int (2 ^ d) * 2 powi (- int d)"
    by (simp add: power_int_minus)
  have "x - 1 = of_int m * 2 powi (- int d) - of_int (2 ^ d) * 2 powi (- int d)"
    using m(1) one by simp
  also have "\<dots> = of_int (m - 2 ^ d) * 2 powi (- int d)"
    by (simp add: algebra_simps)
  finally have x1: "x - 1 = of_int (m - 2 ^ d) * 2 powi (- int d)" .
  have "0 \<le> of_int (m - 2 ^ d) * (2::rat) powi (- int d)"
    using assms(2) unfolding x1 [symmetric] by simp
  moreover have "(0::rat) < 2 powi (- int d)"
    by simp
  ultimately have "(0::rat) \<le> of_int (m - 2 ^ d)"
    by (simp only: zero_le_mult_iff) linarith
  then have k0: "0 \<le> m - 2 ^ d"
    by (simp only: of_int_0_le_iff)
  have k1: "m - 2 ^ d \<le> 2 ^ 53"
    using m(3) by (smt (verit) zero_le_power)
  have dq: "- 1074 \<le> - int d"
    using e by (simp add: d_def)
  show ?thesis
  proof (cases "m - 2 ^ d = 0")
    case True
    then have "x - 1 = 0" using x1 by simp
    then show ?thesis by (simp add: binary64_def)
  next
    case False
    then have "0 < m - 2 ^ d" using k0 by simp
    from binary64_representable [OF this k1 dq] show ?thesis
      unfolding x1 [symmetric] .
  qed
qed

lemma binary64_below_one:
  assumes "binary64 u = u" and "0 \<le> u" and "u < 1"
  shows "u \<le> 1 - 1 / 2 ^ 53"
proof (rule ccontr)
  assume "\<not> u \<le> 1 - 1 / 2 ^ 53"
  then have big: "1 - 1 / 2 ^ 53 < u" by simp
  then have upos: "0 < u" and half: "1 / 2 \<le> u"
    by simp_all
  have au: "\<bar>u\<bar> = u" using upos by simp
  have "expo u = - 1"
    using half assms(3) by (intro expo_unique [OF upos]) simp_all
  then have q: "ulpExp u = - 53"
    by (simp add: ulpExp_def au)
  from binary64_fixed_shape [OF upos assms(1)]
  obtain m where m: "u = of_int m * 2 powi (- 53)"
    unfolding q by blast
  then have um: "u * 2 ^ 53 = of_int m"
    by simp
  have "(2 ^ 53 - 1 :: rat) < u * 2 ^ 53" "u * 2 ^ 53 < (2 ^ 53 :: rat)"
    using big assms(3) by simp_all
  then have "(of_int (2 ^ 53 - 1) :: rat) < of_int m" "(of_int m :: rat) < of_int (2 ^ 53)"
    unfolding um by simp_all
  then have "2 ^ 53 - 1 < m" "m < 2 ^ 53"
    by (simp_all only: of_int_less_iff)
  then show False by simp
qed

lemma binary64_nonneg:
  assumes "0 \<le> x"
  shows "0 \<le> binary64 x"
proof (cases "x = 0")
  case True
  then show ?thesis by (simp add: binary64_def)
next
  case False
  then have "0 < x" using assms by simp
  from binary64_shape [OF this] show ?thesis
    by (auto simp: zero_le_mult_iff)
qed

lemma binary64_product_below:
  assumes "0 \<le> y" and "y \<le> of_nat n * (1 - 1 / 2 ^ 53)" and "0 < n"
  shows "binary64 y < of_nat n"
proof (cases "y = 0")
  case True
  then show ?thesis using assms(3) by (simp add: binary64_def)
next
  case False
  then have ypos: "0 < y" using assms(1) by simp
  have ay: "\<bar>y\<bar> = y" using ypos by simp
  define q where "q = ulpExp y"
  define z where "z = y / 2 powi q"
  define N :: rat where "N = of_nat n / 2 powi q"
  have p: "(0::rat) < 2 powi q" by simp
  have npos: "(0::rat) < of_nat n" using assms(3) by simp
  have yn: "y < of_nat n"
  proof -
    have "of_nat n * (1 - 1 / 2 ^ 53) < (of_nat n :: rat) * 1"
      using npos by (intro mult_strict_left_mono) simp_all
    with assms(2) show ?thesis by simp
  qed
  have zN: "z < N"
    unfolding z_def N_def using yn p by (simp add: divide_strict_right_mono)
  have Nbig: "2 ^ 52 < N"
  proof (cases "- 1074 \<le> expo y - 52")
    case True
    then have q: "q = expo y - 52"
      by (simp add: q_def ulpExp_def ay)
    have "(2::rat) ^ 52 = 2 powi expo y / 2 powi (expo y - 52)"
      by (simp add: power_int_diff [symmetric])
    also have "\<dots> \<le> y / 2 powi (expo y - 52)"
      using expo_bounds(1) [OF ypos] by (simp add: divide_right_mono)
    finally have "2 ^ 52 \<le> z"
      by (simp add: z_def q)
    with zN show ?thesis by simp
  next
    case False
    then have q: "q = - 1074"
      by (simp add: q_def ulpExp_def ay)
    have "(1::rat) \<le> of_nat n"
      using assms(3) by simp
    then have "(2::rat) ^ 1074 * 1 \<le> 2 ^ 1074 * of_nat n"
      by (intro mult_left_mono) simp_all
    moreover have "N = 2 ^ 1074 * of_nat n"
      by (simp add: N_def q power_int_minus)
    moreover have "(2::rat) ^ 52 < 2 ^ 1074"
      by (intro power_strict_increasing) simp_all
    ultimately show ?thesis by simp
  qed
  have "z \<le> N * (1 - 1 / 2 ^ 53)"
  proof -
    have "y / 2 powi q \<le> of_nat n * (1 - 1 / 2 ^ 53) / 2 powi q"
      using assms(2) by (rule divide_right_mono) simp
    moreover have "of_nat n * (1 - 1 / 2 ^ 53) / 2 powi q = N * (1 - 1 / 2 ^ 53)"
      by (simp add: N_def)
    ultimately show ?thesis
      by (simp only: z_def)
  qed
  moreover have "N * (1 / 2 ^ 53) > 1 / 2"
  proof -
    have "(2::rat) ^ 52 * (1 / 2 ^ 53) < N * (1 / 2 ^ 53)"
      using Nbig by (intro mult_strict_right_mono) simp_all
    then show ?thesis by simp
  qed
  ultimately have "z + 1 / 2 < N"
    by (simp add: algebra_simps)
  then have "of_int (roundHalfEven z) < N"
    using roundHalfEven_bounds(1) [of z] by linarith
  then have "of_int (roundHalfEven z) * 2 powi q < N * 2 powi q"
    using p by (simp add: mult_strict_right_mono)
  moreover have "N * 2 powi q = of_nat n"
    by (simp add: N_def)
  moreover have "binary64 y = of_int (roundHalfEven z) * 2 powi q"
    using False by (simp add: binary64_def z_def q_def)
  ultimately show ?thesis by simp
qed

section \<open>Rate limiters: properties\<close>

text \<open>
  Claim C3. The fixed-window limiter (window 60000 ms, at most 5 requests a window)
  decides a request of client \<open>k\<close> by four cases: no record, it stores count 1 with the
  window starting now and admits; a record whose window started more than 60000 ms
  ago, it resets the record to count 1 and window start now and admits; a count below
  5, it adds one to the count and admits; otherwise it answers 429 and leaves the map
  as it was. So for a client not seen before, a first call at \<open>t1\<close> and four more no
  later than \<open>t1 + 60000\<close> are admitted, a sixth in that span is denied, and a call
  after \<open>t1 + 60000\<close> is admitted and leaves count 1 with the window starting then.
\<close>

theorem C3_fixed_window_admit:
  assumes "clientIP req = Some k" and "k \<noteq> []"
  shows "(clients k = None \<longrightarrow>
            rateLimiter req now clients = (Next, clients(k \<mapsto> \<lparr>count = 1, windowStart = now\<rparr>)))
       \<and> (\<forall>r. clients k = Some r \<and> now - windowStart r > 60000 \<longrightarrow>
            rateLimiter req now clients = (Next, clients(k \<mapsto> r\<lparr>count := 1, windowStart := now\<rparr>)))
       \<and> (\<forall>r. clients k = Some r \<and> now - windowStart r \<le> 60000 \<and> count r < 5 \<longrightarrow>
            rateLimiter req now clients = (Next, clients(k \<mapsto> r\<lparr>count := count r + 1\<rparr>)))
       \<and> (\<forall>r. clients k = Some r \<and> now - windowStart r \<le> 60000 \<and> count r \<ge> 5 \<longrightarrow>
            rateLimiter req now clients = (StatusJson 429 ''Rate limit exceeded'', clients))
       \<and> (clients k = None \<and> t2 - t1 \<le> 60000 \<and> t3 - t1 \<le> 60000 \<and> t4 - t1 \<le> 60000
            \<and> t5 - t1 \<le> 60000 \<and> t6 - t1 \<le> 60000 \<and> t7 > t1 + 60000 \<longrightarrow>
          (\<exists>clients7.
             calls rateLimiter req [t1, t2, t3, t4, t5, t6, t7] clients =
               ([Next, Next, Next, Next, Next, StatusJson 429 ''Rate limit exceeded'', Next], clients7)
             \<and> clients7 k = Some \<lparr>count = 1, windowStart = t7\<rparr>))"
  using assms
  by (simp add: rateLimiter_def WINDOW_SIZE_IN_MS_def MAX_REQUESTS_PER_WINDOW_def)

theorem C3_fixed_window_admit_witness:
  "\<exists>clients7.
     calls rateLimiter \<lparr>header_X_Client_ID = Some [67], ip = None\<rparr>
        [1000, 1001, 2000, 30000, 60999, 61000, 61001] Map.empty =
       ([Next, Next, Next, Next, Next, StatusJson 429 ''Rate limit exceeded'', Next], clients7)
     \<and> clients7 [67] = Some \<lparr>count = 1, windowStart = 61001\<rparr>"
  using C3_fixed_window_admit [where req = "\<lparr>header_X_Client_ID = Some [67], ip = None\<rparr>"
      and k = "[67]" and clients = Map.empty and ?t1.0 = 1000 and ?t2.0 = 1001 and ?t3.0 = 2000
      and ?t4.0 = 30000 and ?t5.0 = 60999 and ?t6.0 = 61000 and ?t7.0 = 61001]
  by (simp add: clientIP_def js_or_def truthy_def del: calls.simps)

text \<open>
  Claim C5. The sliding-window-log limiter (window 5000 ms, at most 2 requests) drops
  from the stored log of client \<open>k\<close> every timestamp older than \<open>now - 5000\<close>; when 2 or
  more remain it answers 429 and stores nothing, the map staying as it was; otherwise
  it stores the remaining timestamps followed by \<open>now\<close> and admits. Two calls at \<open>t\<close>
  by a new client are admitted, a third at \<open>t + 100\<close> is denied, and a call at
  \<open>t + 5100\<close> is admitted, the log then holding that one timestamp.
\<close>

theorem C5_sliding_window_log:
  assumes "clientIP req = Some k" and "k \<noteq> []"
  shows "(let stored = (case clients k of None \<Rightarrow> [] | Some ts \<Rightarrow> ts);
              remaining = filter (\<lambda>ts. \<not> ts < now - 5000) stored
          in (length remaining \<ge> 2 \<longrightarrow>
                slidingWindowLogRateLimiter req now clients =
                  (StatusJson 429 ''Rate limit exceeded'', clients))
           \<and> (length remaining < 2 \<longrightarrow>
                slidingWindowLogRateLimiter req now clients =
                  (Next, clients(k \<mapsto> remaining @ [now]))))
       \<and> (clients k = None \<longrightarrow>
            calls slidingWindowLogRateLimiter req [t, t, t + 100, t + 5100] clients =
              ([Next, Next, StatusJson 429 ''Rate limit exceeded'', Next], clients(k \<mapsto> [t + 5100])))"
proof -
  have eq: "(\<lambda>ts. now - ts \<le> 5000) = (\<lambda>ts. \<not> ts < now - 5000)" for now :: int
    by (rule ext) linarith
  show ?thesis
    using assms
    by (simp add: slidingWindowLogRateLimiter_def WINDOW_SIZE_def MAX_REQUESTS_def eq Let_def)
qed

theorem C5_sliding_window_log_witness:
  "calls slidingWindowLogRateLimiter \<lparr>header_X_Client_ID = None, ip = Some [49, 48]\<rparr>
      [0, 0, 100, 5100] Map.empty =
     ([Next, Next, StatusJson 429 ''Rate limit exceeded'', Next], [[49, 48] \<mapsto> [5100]])"
  using C5_sliding_window_log [where req = "\<lparr>header_X_Client_ID = None, ip = Some [49, 48]\<rparr>"
      and k = "[49, 48]" and clients = Map.empty and t = 0]
  by (simp add: clientIP_def js_or_def truthy_def del: calls.simps)

lemma binary64_numerals [simp]:
  "binary64 0 = 0" "binary64 1 = 1" "binary64 2 = 2" "binary64 3 = 3" "binary64 4 = 4"
  "binary64 5 = 5" "binary64 2000 = 2000"
  using binary64_of_int [of 0] binary64_of_int [of 1] binary64_of_int [of 2]
    binary64_of_int [of 3] binary64_of_int [of 4] binary64_of_int [of 5]
    binary64_of_int [of 2000]
  by simp_all

lemma TokenBucket_updates:
  "(b::TokenBucket)\<lparr>tokens := x, lastRefill := y\<rparr> = \<lparr>tokens = x, lastRefill = y\<rparr>"
  "(b::TokenBucket)\<lparr>lastRefill := y, tokens := x\<rparr> = \<lparr>tokens = x, lastRefill = y\<rparr>"
  by (cases b, simp)+

lemma tokenBucket_step:
  assumes "clientIP req = Some k" and "k \<noteq> []"
  shows "tokenBucketRateLimiter req now clients =
     (let bucket = (case clients k of None \<Rightarrow> \<lparr>tokens = 5, lastRefill = now\<rparr> | Some b \<Rightarrow> b);
          elapsedSeconds = binary64 (binary64 (of_int now - of_int (lastRefill bucket)) / 1000);
          refilled = min 5 (binary64 (tokens bucket + binary64 (elapsedSeconds * (1 / 2))))
      in if refilled \<ge> 1
         then (Next, clients(k \<mapsto> \<lparr>tokens = binary64 (refilled - 1), lastRefill = now\<rparr>))
         else (StatusJson 429 ''Rate limit exceeded'',
               clients(k \<mapsto> \<lparr>tokens = refilled, lastRefill = now\<rparr>)))"
  using assms
  by (cases "clients k")
     (simp_all add: tokenBucketRateLimiter_def REFILL_RATE_def BUCKET_CAPACITY_def Let_def
        TokenBucket_updates)

lemma refilled_exact:
  assumes "1 \<le> min 5 (binary64 s)"
  shows "binary64 (min 5 (binary64 s) - 1) = min 5 (binary64 s) - 1"
proof -
  let ?r = "min 5 (binary64 s)"
  have "binary64 ?r = ?r"
  proof (cases "binary64 s \<le> 5")
    case True
    then have r: "?r = binary64 s" by simp
    have "\<not> s \<le> 0"
      using binary64_nonpos [of s] assms r by auto
    then have "binary64 (binary64 s) = binary64 s"
      by (intro binary64_idem) simp
    then show ?thesis by (simp only: r)
  next
    case False
    then have "?r = 5" by simp
    then show ?thesis by simp
  qed
  moreover have "?r \<le> 5" by simp
  ultimately show ?thesis
    using assms by (intro binary64_minus_one)
qed

text \<open>
  Claim C4. The token-bucket limiter (capacity 5, half a token a second) works on the
  stored bucket of client \<open>k\<close>, or on a full one made now for a new client. In binary64
  arithmetic, every operation rounded, it adds the elapsed seconds times the rate to
  the tokens, never above the capacity, and sets \<open>lastRefill\<close> to now; with at least one
  token it admits and takes exactly one (that subtraction is exact), with less it
  answers 429 and stores the refilled tokens untouched. For a new client five calls at
  \<open>t\<close> are admitted and a sixth is denied; 2000 ms later one call is admitted and the
  next is denied.
\<close>

theorem C4_token_bucket:
  assumes "clientIP req = Some k" and "k \<noteq> []"
  shows "(let bucket = (case clients k of None \<Rightarrow> \<lparr>tokens = 5, lastRefill = now\<rparr> | Some b \<Rightarrow> b);
              elapsedSeconds = binary64 (binary64 (of_int now - of_int (lastRefill bucket)) / 1000);
              refilled = min 5 (binary64 (tokens bucket + binary64 (elapsedSeconds * (1 / 2))))
          in (refilled \<ge> 1 \<longrightarrow>
                tokenBucketRateLimiter req now clients =
                  (Next, clients(k \<mapsto> \<lparr>tokens = refilled - 1, lastRefill = now\<rparr>)))
           \<and> (refilled < 1 \<longrightarrow>
                tokenBucketRateLimiter req now clients =
                  (StatusJson 429 ''Rate limit exceeded'',
                   clients(k \<mapsto> \<lparr>tokens = refilled, lastRefill = now\<rparr>))))
       \<and> (clients k = None \<longrightarrow>
            calls tokenBucketRateLimiter req [t, t, t, t, t, t, t + 2000, t + 2000] clients =
              ([Next, Next, Next, Next, Next, StatusJson 429 ''Rate limit exceeded'',
                Next, StatusJson 429 ''Rate limit exceeded''],
               clients(k \<mapsto> \<lparr>tokens = 0, lastRefill = t + 2000\<rparr>)))"
proof -
  define bucket where
    "bucket = (case clients k of None \<Rightarrow> \<lparr>tokens = 5, lastRefill = now\<rparr> | Some b \<Rightarrow> b)"
  define es where
    "es = binary64 (binary64 (of_int now - of_int (lastRefill bucket)) / 1000)"
  define refilled where
    "refilled = min 5 (binary64 (tokens bucket + binary64 (es * (1 / 2))))"
  have st: "tokenBucketRateLimiter req now clients =
      (if refilled \<ge> 1
       then (Next, clients(k \<mapsto> \<lparr>tokens = binary64 (refilled - 1), lastRefill = now\<rparr>))
       else (StatusJson 429 ''Rate limit exceeded'',
             clients(k \<mapsto> \<lparr>tokens = refilled, lastRefill = now\<rparr>)))"
    using tokenBucket_step [OF assms, of now clients]
    unfolding Let_def bucket_def [symmetric] es_def [symmetric] refilled_def [symmetric] .
  have ex: "binary64 (refilled - 1) = refilled - 1" if "1 \<le> refilled"
    using that unfolding refilled_def by (rule refilled_exact)
  have step: "(refilled \<ge> 1 \<longrightarrow>
                tokenBucketRateLimiter req now clients =
                  (Next, clients(k \<mapsto> \<lparr>tokens = refilled - 1, lastRefill = now\<rparr>)))
           \<and> (refilled < 1 \<longrightarrow>
                tokenBucketRateLimiter req now clients =
                  (StatusJson 429 ''Rate limit exceeded'',
                   clients(k \<mapsto> \<lparr>tokens = refilled, lastRefill = now\<rparr>)))"
  proof (cases "1 \<le> refilled")
    case True
    then show ?thesis by (simp add: st ex)
  next
    case False
    then show ?thesis by (simp add: st)
  qed
  have run: "calls tokenBucketRateLimiter req [t, t, t, t, t, t, t + 2000, t + 2000] clients =
              ([Next, Next, Next, Next, Next, StatusJson 429 ''Rate limit exceeded'',
                Next, StatusJson 429 ''Rate limit exceeded''],
               clients(k \<mapsto> \<lparr>tokens = 0, lastRefill = t + 2000\<rparr>))"
    if "clients k = None"
    using that by (simp add: tokenBucket_step [OF assms] Let_def)
  show ?thesis
    unfolding Let_def
    using step [unfolded refilled_def es_def bucket_def] run by blast
qed

theorem C4_token_bucket_witness:
  "calls tokenBucketRateLimiter \<lparr>header_X_Client_ID = Some [107], ip = Some [49]\<rparr>
      [7, 7, 7, 7, 7, 7, 2007, 2007] Map.empty =
     ([Next, Next, Next, Next, Next, StatusJson 429 ''Rate limit exceeded'',
       Next, StatusJson 429 ''Rate limit exceeded''],
      [[107] \<mapsto> \<lparr>tokens = 0, lastRefill = 2007\<rparr>])
 \<and> tokenBucketRateLimiter \<lparr>header_X_Client_ID = Some [107], ip = Some [49]\<rparr> 2000
      [[107] \<mapsto> \<lparr>tokens = 3152519739159347 / 2 ^ 52, lastRefill = 1400\<rparr>] =
     (Next, [[107] \<mapsto> \<lparr>tokens = 0, lastRefill = 2000\<rparr>])"
proof -
  let ?req = "\<lparr>header_X_Client_ID = Some [107], ip = Some [49]\<rparr>"
  let ?c = "[[107] \<mapsto> \<lparr>tokens = 3152519739159347 / 2 ^ 52, lastRefill = 1400\<rparr>]"
  have k: "clientIP ?req = Some [107]" "[107::16 word] \<noteq> []"
    by (simp_all add: clientIP_def js_or_def truthy_def)
  have b: "(case ?c [107] of None \<Rightarrow> \<lparr>tokens = 5, lastRefill = 2000\<rparr> | Some b \<Rightarrow> b) =
      \<lparr>tokens = 3152519739159347 / 2 ^ 52, lastRefill = 1400\<rparr>"
    by simp
  have r: "min 5 (binary64 (3152519739159347 / 2 ^ 52
      + binary64 (binary64 (binary64 (of_int 2000 - of_int 1400) / 1000) * (1 / 2)))) = 1"
    by code_simp
  have 1: "calls tokenBucketRateLimiter ?req [7, 7, 7, 7, 7, 7, 2007, 2007] Map.empty =
     ([Next, Next, Next, Next, Next, StatusJson 429 ''Rate limit exceeded'',
       Next, StatusJson 429 ''Rate limit exceeded''],
      [[107] \<mapsto> \<lparr>tokens = 0, lastRefill = 2007\<rparr>])"
    using C4_token_bucket [OF k, where clients = Map.empty and t = 7]
    by (simp del: calls.simps)
  have 2: "tokenBucketRateLimiter ?req 2000 ?c = (Next, [[107] \<mapsto> \<lparr>tokens = 0, lastRefill = 2000\<rparr>])"
    using C4_token_bucket [OF k, where clients = ?c and now = 2000]
    unfolding Let_def b TokenBucket.select_convs r by simp
  show ?thesis
    using 1 2 by (rule conjI)
qed

text \<open>
  Claim C8. Every limiter takes the client key from the identity header when that is a
  non-empty string, whatever the network address is, and from the network address
  otherwise. When neither is a non-empty string (in particular when both are missing)
  each of the four limiters answers status 400 with a JSON error body and returns its
  map unchanged. The key is used as it is: a call leaves the entry of every other key,
  such as one that differs only in letter case, as it was.
\<close>

theorem C8_client_key:
  "(truthy (header_X_Client_ID req) \<longrightarrow> clientIP req = header_X_Client_ID req)
 \<and> (\<not> truthy (header_X_Client_ID req) \<longrightarrow> clientIP req = ip req)
 \<and> (\<not> truthy (header_X_Client_ID req) \<and> \<not> truthy (ip req) \<longrightarrow>
        rateLimiter req now c1 = (StatusJson 400 ''Unable to determine client IP'', c1)
      \<and> slidingWindowLogRateLimiter req now c2 = (StatusJson 400 ''Unable to determine client ID'', c2)
      \<and> leakyBucketRateLimiter req now c3 = (StatusJson 400 ''No client ID'', c3)
      \<and> tokenBucketRateLimiter req now c4 = (StatusJson 400 ''No client ID'', c4))
 \<and> (truthy (clientIP req) \<and> clientIP req \<noteq> Some k' \<longrightarrow>
        snd (rateLimiter req now c1) k' = c1 k'
      \<and> snd (slidingWindowLogRateLimiter req now c2) k' = c2 k'
      \<and> snd (leakyBucketRateLimiter req now c3) k' = c3 k'
      \<and> snd (tokenBucketRateLimiter req now c4) k' = c4 k')"
proof -
  have key: "clientIP req = (if truthy (header_X_Client_ID req) then header_X_Client_ID req else ip req)"
    by (simp add: clientIP_def js_or_def)
  have none: "\<not> truthy (header_X_Client_ID req) \<and> \<not> truthy (ip req) \<Longrightarrow>
      clientIP req = None \<or> clientIP req = Some []"
    by (auto simp: key truthy_def split: option.splits)
  have a: "\<not> truthy (header_X_Client_ID req) \<and> \<not> truthy (ip req) \<longrightarrow>
        rateLimiter req now c1 = (StatusJson 400 ''Unable to determine client IP'', c1)
      \<and> slidingWindowLogRateLimiter req now c2 = (StatusJson 400 ''Unable to determine client ID'', c2)
      \<and> leakyBucketRateLimiter req now c3 = (StatusJson 400 ''No client ID'', c3)
      \<and> tokenBucketRateLimiter req now c4 = (StatusJson 400 ''No client ID'', c4)"
    using none
    by (auto simp: rateLimiter_def slidingWindowLogRateLimiter_def leakyBucketRateLimiter_def
        tokenBucketRateLimiter_def)
  have b: "truthy (clientIP req) \<and> clientIP req \<noteq> Some k' \<longrightarrow>
        snd (rateLimiter req now c1) k' = c1 k'
      \<and> snd (slidingWindowLogRateLimiter req now c2) k' = c2 k'
      \<and> snd (leakyBucketRateLimiter req now c3) k' = c3 k'
      \<and> snd (tokenBucketRateLimiter req now c4) k' = c4 k'"
    by (auto simp: rateLimiter_def slidingWindowLogRateLimiter_def leakyBucketRateLimiter_def
        tokenBucketRateLimiter_def truthy_def Let_def split: option.splits)
  show ?thesis using a b by (simp add: key)
qed

theorem C8_client_key_witness:
  "clientIP \<lparr>header_X_Client_ID = Some [65], ip = Some [49, 48]\<rparr> = Some [65]
 \<and> clientIP \<lparr>header_X_Client_ID = None, ip = Some [49, 48]\<rparr> = Some [49, 48]
 \<and> rateLimiter \<lparr>header_X_Client_ID = None, ip = None\<rparr> 0 Map.empty =
      (StatusJson 400 ''Unable to determine client IP'', Map.empty)
 \<and> snd (tokenBucketRateLimiter \<lparr>header_X_Client_ID = Some [65], ip = None\<rparr> 0 Map.empty) [97] = None"
  using C8_client_key [where req = "\<lparr>header_X_Client_ID = Some [65], ip = Some [49, 48]\<rparr>"]
    C8_client_key [where req = "\<lparr>header_X_Client_ID = None, ip = Some [49, 48]\<rparr>"]
    C8_client_key [where req = "\<lparr>header_X_Client_ID = None, ip = None\<rparr>" and now = 0
      and ?c1.0 = Map.empty]
    C8_client_key [where req = "\<lparr>header_X_Client_ID = Some [65], ip = None\<rparr>" and now = 0
      and ?c4.0 = Map.empty and k' = "[97]"]
  by (simp add: truthy_def)

lemma leaked_le_0: "(of_int (now - l) / 1000) * LEAK_RATE < 1 \<Longrightarrow> leaked now l \<le> 0"
  unfolding leaked_def by linarith

lemma leaky_step:
  assumes "clientIP req = Some k" and "k \<noteq> []"
  shows "\<exists>b1. snd (leakyBucketRateLimiter req now clients) k = Some b1 \<and> lastLeak b1 = now
     \<and> ((of_int (now - lastLeak (startBucket clients k now)) / 1000) * LEAK_RATE < 1 \<longrightarrow>
          queue (startBucket clients k now) \<le> queue b1
        \<and> (LEAKY_BUCKET_CAPACITY \<le> queue (startBucket clients k now) \<longrightarrow>
             fst (leakyBucketRateLimiter req now clients) = StatusJson 429 ''Rate limit exceeded''))"
  using assms leaked_le_0 [of now "lastLeak (startBucket clients k now)"]
  by (auto simp: leakyBucketRateLimiter_def Let_def startBucket_def split: option.splits)

lemma calls_append:
  "calls L req (ts @ us) s =
     (fst (calls L req ts s) @ fst (calls L req us (snd (calls L req ts s))),
      snd (calls L req us (snd (calls L req ts s))))"
  by (induction ts arbitrary: s) (auto simp: split_beta Let_def)

lemma spaced_append:
  "spaced p (ts @ us) = (spaced p ts \<and> spaced (last (p # ts)) us)"
  by (induction ts arbitrary: p) auto

lemma leaky_run:
  assumes "clientIP req = Some k" and "k \<noteq> []"
  shows "clients k = Some b \<Longrightarrow> spaced (lastLeak b) ts \<Longrightarrow>
     \<exists>b1. snd (calls leakyBucketRateLimiter req ts clients) k = Some b1
        \<and> queue b \<le> queue b1 \<and> lastLeak b1 = last (lastLeak b # ts)
        \<and> (LEAKY_BUCKET_CAPACITY \<le> queue b \<longrightarrow>
             fst (calls leakyBucketRateLimiter req ts clients)
               = replicate (length ts) (StatusJson 429 ''Rate limit exceeded''))"
proof (induction ts arbitrary: clients b)
  case Nil
  then show ?case by simp
next
  case (Cons t ts)
  obtain r s1 where rs: "leakyBucketRateLimiter req t clients = (r, s1)"
    by (cases "leakyBucketRateLimiter req t clients")
  have sb: "startBucket clients k t = b"
    using Cons.prems(1) by (simp add: startBucket_def)
  from Cons.prems(2) have sp: "(of_int (t - lastLeak b) / 1000) * LEAK_RATE < 1" "spaced t ts"
    by simp_all
  from leaky_step [OF assms, of t clients] rs sb sp(1)
  obtain b1 where b1: "s1 k = Some b1" "lastLeak b1 = t" "queue b \<le> queue b1"
      "LEAKY_BUCKET_CAPACITY \<le> queue b \<longrightarrow> r = StatusJson 429 ''Rate limit exceeded''"
    by auto
  from Cons.IH [of s1 b1] b1(1) sp(2) b1(2)
  obtain b2 where b2: "snd (calls leakyBucketRateLimiter req ts s1) k = Some b2"
      "queue b1 \<le> queue b2" "lastLeak b2 = last (t # ts)"
      "LEAKY_BUCKET_CAPACITY \<le> queue b1 \<longrightarrow>
         fst (calls leakyBucketRateLimiter req ts s1)
           = replicate (length ts) (StatusJson 429 ''Rate limit exceeded'')"
    by auto
  show ?case
    using rs b1 b2 by (auto simp: split_beta)
qed

text \<open>
  Claim C9. Every leaky-bucket call sets \<open>lastLeak\<close> to the time of the call. So along
  calls of one client that are each less than one leak interval after the one before
  (\<open>elapsedSeconds * LEAK_RATE < 1\<close>) the queue depth never goes down: after any first
  part \<open>t # ts\<close> of the calls it is at least what it was at the start, and after more
  such calls \<open>us\<close> at least that again; and once it has reached the capacity 5 every one
  of the calls \<open>us\<close> is denied, however many there are.
\<close>

theorem C9_leaky_bucket_no_fractional_leak:
  assumes "clientIP req = Some k" and "k \<noteq> []"
  shows "(\<exists>b1. snd (leakyBucketRateLimiter req now clients) k = Some b1 \<and> lastLeak b1 = now)
     \<and> (spaced (lastLeak (startBucket clients k t)) (t # ts @ us) \<longrightarrow>
          (\<exists>b1 b2.
              snd (calls leakyBucketRateLimiter req (t # ts) clients) k = Some b1
            \<and> snd (calls leakyBucketRateLimiter req (t # ts @ us) clients) k = Some b2
            \<and> queue (startBucket clients k t) \<le> queue b1
            \<and> queue b1 \<le> queue b2
            \<and> (5 \<le> queue b1 \<longrightarrow>
                 fst (calls leakyBucketRateLimiter req (t # ts @ us) clients) =
                   fst (calls leakyBucketRateLimiter req (t # ts) clients)
                     @ replicate (length us) (StatusJson 429 ''Rate limit exceeded''))))"
proof -
  let ?L = leakyBucketRateLimiter
  have a: "\<exists>b1. snd (?L req now clients) k = Some b1 \<and> lastLeak b1 = now"
    using leaky_step [OF assms, of now clients] by blast
  have b: "\<exists>b1 b2.
              snd (calls ?L req (t # ts) clients) k = Some b1
            \<and> snd (calls ?L req (t # ts @ us) clients) k = Some b2
            \<and> queue (startBucket clients k t) \<le> queue b1
            \<and> queue b1 \<le> queue b2
            \<and> (5 \<le> queue b1 \<longrightarrow>
                 fst (calls ?L req (t # ts @ us) clients) =
                   fst (calls ?L req (t # ts) clients)
                     @ replicate (length us) (StatusJson 429 ''Rate limit exceeded''))"
    if sp: "spaced (lastLeak (startBucket clients k t)) (t # ts @ us)"
  proof -
    from sp have sp1: "(of_int (t - lastLeak (startBucket clients k t)) / 1000) * LEAK_RATE < 1"
      and sp2: "spaced t ts" and sp3: "spaced (last (t # ts)) us"
      by (simp_all add: spaced_append)
    obtain r s1 where rs: "?L req t clients = (r, s1)"
      by (cases "?L req t clients")
    from leaky_step [OF assms, of t clients] rs sp1
    obtain c1 where c1: "s1 k = Some c1" "lastLeak c1 = t"
        "queue (startBucket clients k t) \<le> queue c1"
      by auto
    from leaky_run [OF assms, of s1 c1 ts] c1 sp2
    obtain b1 where b1: "snd (calls ?L req ts s1) k = Some b1" "queue c1 \<le> queue b1"
        "lastLeak b1 = last (t # ts)"
      by auto
    let ?s2 = "snd (calls ?L req ts s1)"
    from leaky_run [OF assms, of ?s2 b1 us] b1 sp3
    obtain b2 where b2: "snd (calls ?L req us ?s2) k = Some b2" "queue b1 \<le> queue b2"
        "LEAKY_BUCKET_CAPACITY \<le> queue b1 \<longrightarrow>
           fst (calls ?L req us ?s2) = replicate (length us) (StatusJson 429 ''Rate limit exceeded'')"
      by auto
    have e1: "calls ?L req (t # ts) clients = (r # fst (calls ?L req ts s1), ?s2)"
      using rs by (simp add: split_beta)
    have e2: "calls ?L req (t # ts @ us) clients =
        (r # fst (calls ?L req ts s1) @ fst (calls ?L req us ?s2), snd (calls ?L req us ?s2))"
      using rs by (simp add: split_beta calls_append)
    show ?thesis
      using b1 b2 c1(3) unfolding e1 e2 by (simp add: LEAKY_BUCKET_CAPACITY_def)
  qed
  show ?thesis
    using a b by blast
qed

lemma leaked_eq_div: "leaked now l = (now - l) div 1000"
  using floor_divide_of_int_eq [of "now - l" 1000, where ?'a = rat]
  by (simp add: leaked_def LEAK_RATE_def)

theorem C9_leaky_bucket_no_fractional_leak_witness:
  "fst (calls leakyBucketRateLimiter \<lparr>header_X_Client_ID = Some [99], ip = None\<rparr>
         [999, 1998, 2997, 3996] [[99] \<mapsto> \<lparr>queue = 5, lastLeak = 0\<rparr>]) =
     [StatusJson 429 ''Rate limit exceeded'', StatusJson 429 ''Rate limit exceeded'',
      StatusJson 429 ''Rate limit exceeded'', StatusJson 429 ''Rate limit exceeded'']"
  using C9_leaky_bucket_no_fractional_leak [where req = "\<lparr>header_X_Client_ID = Some [99], ip = None\<rparr>"
      and k = "[99]" and clients = "[[99] \<mapsto> \<lparr>queue = 5, lastLeak = 0\<rparr>]"
      and t = 999 and ts = "[]" and us = "[1998, 2997, 3996]" and now = 0]
  by (simp add: clientIP_def js_or_def truthy_def startBucket_def LEAK_RATE_def
      leakyBucketRateLimiter_def leaked_eq_div LEAKY_BUCKET_CAPACITY_def Let_def)

section \<open>Hash ring: properties\<close>

lemma binarySearch_correct:
  "sorted (map hash ring) \<Longrightarrow> hi < length ring \<Longrightarrow> lo \<le> hi \<Longrightarrow>
   \<forall>i<lo. hash (ring ! i) < h \<Longrightarrow> h \<le> hash (ring ! hi) \<Longrightarrow>
   \<exists>j. binarySearch ring h lo hi = Inr j \<and> j \<le> hi \<and> h \<le> hash (ring ! j)
      \<and> (\<forall>i<j. hash (ring ! i) < h)"
proof (induction ring h lo hi rule: binarySearch.induct)
  case (1 ring h lo hi)
  show ?case
  proof (cases "lo < hi")
    case False
    with "1.prems" have "lo = hi" by simp
    with "1.prems" show ?thesis
      by (subst binarySearch.simps) simp
  next
    case True
    define mid where "mid = (lo + hi) div 2"
    have mid: "lo \<le> mid" "mid < hi" "mid < length ring"
      using True "1.prems"(2) by (simp_all add: mid_def)
    show ?thesis
    proof (cases "h \<le> hash (ring ! mid)")
      case left: True
      have "\<exists>j. binarySearch ring h lo mid = Inr j \<and> j \<le> mid \<and> h \<le> hash (ring ! j)
          \<and> (\<forall>i<j. hash (ring ! i) < h)"
        using "1.IH"(1) [OF True mid_def mid(3) left "1.prems"(1) mid(3) mid(1) "1.prems"(4) left] .
      then show ?thesis
        using True left mid by (subst binarySearch.simps) (auto simp: mid_def [symmetric] Let_def)
    next
      case right: False
      have below: "\<forall>i<mid + 1. hash (ring ! i) < h"
      proof (intro allI impI)
        fix i assume "i < mid + 1"
        then have "i \<le> mid" by simp
        then have "map hash ring ! i \<le> map hash ring ! mid"
          using "1.prems"(1) mid(3) by (intro sorted_nth_mono) simp_all
        then show "hash (ring ! i) < h"
          using right mid(3) \<open>i \<le> mid\<close> by simp
      qed
      have "\<exists>j. binarySearch ring h (mid + 1) hi = Inr j \<and> j \<le> hi \<and> h \<le> hash (ring ! j)
          \<and> (\<forall>i<j. hash (ring ! i) < h)"
        using "1.IH"(2) [OF True mid_def mid(3) right "1.prems"(1) "1.prems"(2) _ below "1.prems"(5)]
          mid(2) by simp
      then show ?thesis
        using True right mid by (subst binarySearch.simps) (auto simp: mid_def [symmetric] Let_def)
    qed
  qed
qed

lemma ringLookup_nonempty:
  "ring \<noteq> [] \<Longrightarrow>
   ringLookup servers ring h =
     (if h \<le> hash (ring ! 0) \<or> h > hash (ring ! (length ring - 1)) then Inr (server (ring ! 0))
      else (case binarySearch ring h 0 (length ring - 1) of
              Inl e \<Rightarrow> Inl e
            | Inr lo \<Rightarrow> if lo < length ring then Inr (server (ring ! lo)) else Inl TypeError))"
  by (cases ring) (auto simp: ringLookup_def Let_def split: sum.splits)

lemma spec_firstAtLeast_nonempty:
  "ring \<noteq> [] \<Longrightarrow>
   spec_firstAtLeast ring h =
     (case find (\<lambda>e. h \<le> hash e) ring of
        Some e \<Rightarrow> Some (server e)
      | None \<Rightarrow> Some (server (ring ! 0)))"
  by (cases ring) (auto simp: spec_firstAtLeast_def split: option.splits)

lemma ringLookup_refines:
  assumes "sorted (map hash ring)" and "ring \<noteq> []"
  shows "\<exists>s. ringLookup servers ring h = Inr s \<and> spec_firstAtLeast ring h = Some s
    \<and> s \<in> server ` set ring"
proof -
  define hi where "hi = length ring - 1"
  have hi: "hi < length ring" and z: "0 < length ring"
    using assms(2) by (simp_all add: hi_def)
  have hi_eq: "length ring - Suc 0 = hi"
    by (simp add: hi_def)
  have mem: "server (ring ! i) \<in> server ` set ring" if "i < length ring" for i
    using that by simp
  show ?thesis
  proof (cases "h \<le> hash (ring ! 0)")
    case True
    have "find (\<lambda>e. h \<le> hash e) ring = Some (ring ! 0)"
      unfolding find_Some_iff using True z by (intro exI [of _ 0]) simp
    then show ?thesis
      using True mem [OF z]
      by (simp add: ringLookup_nonempty [OF assms(2)] spec_firstAtLeast_nonempty [OF assms(2)])
  next
    case first: False
    show ?thesis
    proof (cases "h > hash (ring ! hi)")
      case True
      have "\<not> h \<le> hash e" if "e \<in> set ring" for e
      proof -
        from that obtain i where i: "i < length ring" "ring ! i = e"
          by (auto simp: in_set_conv_nth)
        then have "i \<le> hi" by (simp add: hi_def)
        then have "map hash ring ! i \<le> map hash ring ! hi"
          using assms(1) hi by (intro sorted_nth_mono) simp_all
        then show ?thesis using True i hi by simp
      qed
      then have "find (\<lambda>e. h \<le> hash e) ring = None"
        by (simp add: find_None_iff)
      then show ?thesis
        using True first mem [OF z]
        by (simp add: ringLookup_nonempty [OF assms(2)] spec_firstAtLeast_nonempty [OF assms(2)]
            hi_eq)
    next
      case False
      then have le: "h \<le> hash (ring ! hi)" by simp
      have below: "\<forall>i<(0::nat). hash (ring ! i) < h" by simp
      from binarySearch_correct [OF assms(1) hi _ below le]
      obtain j where j: "binarySearch ring h 0 hi = Inr j" "j \<le> hi" "h \<le> hash (ring ! j)"
          "\<forall>i<j. hash (ring ! i) < h"
        by auto
      have jl: "j < length ring" using j(2) hi by simp
      have "find (\<lambda>e. h \<le> hash e) ring = Some (ring ! j)"
        unfolding find_Some_iff using j(3,4) jl by (intro exI [of _ j]) auto
      then show ?thesis
        using False first j(1) jl mem [OF jl]
        by (simp add: ringLookup_nonempty [OF assms(2)] spec_firstAtLeast_nonempty [OF assms(2)]
            hi_eq)
    qed
  qed
qed

lemma length_ringEntries: "length (ringEntries servers) = length servers * 100"
  by (induction servers) (simp_all add: ringEntries_def VNODE_def)

lemma server_ringEntries: "server ` set (ringEntries servers) \<subseteq> set servers"
  by (auto simp: ringEntries_def)

lemma buildRing_props:
  "sorted (map hash (buildRing servers))"
  "length (buildRing servers) = length servers * 100"
  "server ` set (buildRing servers) \<subseteq> set servers"
  using server_ringEntries [of servers]
  by (simp_all add: buildRing_def length_ringEntries)

text \<open>
  Claim C1. For a non-empty server list the consistent-hash balancer holds the ring
  \<open>buildRing servers\<close>: 100 entries per server, the entries of \<open>ringEntries\<close> sorted
  ascending by their FNV-1a hash. For every 32-bit key hash \<open>h\<close> the lookup of the code
  (two boundary tests, then binary search) succeeds and returns the server of the first
  ring entry whose hash is at least \<open>h\<close>, or of the first ring entry when there is none,
  as the linear-scan reference \<open>spec_firstAtLeast\<close> defines it; \<open>pickTarget\<close> returns that
  server for the hash of the request's key and leaves the balancer unchanged. A hash
  at most the smallest or above the largest ring hash gives the first entry's server.
\<close>

theorem C1_consistent_hash_binary_search:
  assumes "servers \<noteq> []"
  shows "createLoadBalancer ConsistentHash servers weights =
           Inr (ConsistentHashLB servers (buildRing servers))
     \<and> length (buildRing servers) = length servers * 100
     \<and> set (buildRing servers) = set (ringEntries servers)
     \<and> sorted (map hash (buildRing servers))
     \<and> (\<exists>s. ringLookup servers (buildRing servers) h = Inr s
            \<and> spec_firstAtLeast (buildRing servers) h = Some s)
     \<and> (\<exists>s. pickTarget (ConsistentHashLB servers (buildRing servers)) req u =
                Inr (s, ConsistentHashLB servers (buildRing servers))
            \<and> spec_firstAtLeast (buildRing servers) (fnv1aHash (hashKey req)) = Some s)
     \<and> (h \<le> hash (hd (buildRing servers)) \<or> hash (last (buildRing servers)) < h \<longrightarrow>
          ringLookup servers (buildRing servers) h = Inr (server (hd (buildRing servers))))"
proof -
  let ?ring = "buildRing servers"
  have ne: "?ring \<noteq> []"
    using assms buildRing_props(2) [of servers] by auto
  have c: "createLoadBalancer ConsistentHash servers weights = Inr (ConsistentHashLB servers ?ring)"
    using assms by (simp add: createLoadBalancer_def)
  have s: "set ?ring = set (ringEntries servers)"
    by (simp add: buildRing_def)
  have r: "\<exists>s. ringLookup servers ?ring k = Inr s \<and> spec_firstAtLeast ?ring k = Some s" for k
    using ringLookup_refines [OF buildRing_props(1) ne, of servers k] by blast
  have p: "\<exists>s. pickTarget (ConsistentHashLB servers ?ring) req u = Inr (s, ConsistentHashLB servers ?ring)
            \<and> spec_firstAtLeast ?ring (fnv1aHash (hashKey req)) = Some s"
    using r [of "fnv1aHash (hashKey req)"] by auto
  have w: "h \<le> hash (hd ?ring) \<or> hash (last ?ring) < h \<longrightarrow>
          ringLookup servers ?ring h = Inr (server (hd ?ring))"
    using ne by (simp add: ringLookup_nonempty hd_conv_nth last_conv_nth)
  show ?thesis
    using c s r [of h] p w buildRing_props(1,2) [of servers] by blast
qed

theorem C1_consistent_hash_binary_search_witness:
  "\<exists>s. ringLookup [[65], [66]] (buildRing [[65], [66]]) 7 = Inr s
      \<and> spec_firstAtLeast (buildRing [[65], [66]]) 7 = Some s"
  using C1_consistent_hash_binary_search [where servers = "[[65], [66]]" and h = 7]
  by simp

section \<open>Smooth weighted round robin: properties\<close>

lemma wrr_step:
  assumes "j < 7"
  shows "pickTarget (WeightedRoundRobinLB [a, b, c] [5, 1, 1]
            ([[0, 0, 0], [-2, 1, 1], [-4, 2, 2], [1, -4, 3], [-1, -3, 4], [4, -2, -2], [2, -1, -1]] ! j))
            req u =
         Inr ([a, a, b, a, c, a, a] ! j,
              WeightedRoundRobinLB [a, b, c] [5, 1, 1]
                ([[0, 0, 0], [-2, 1, 1], [-4, 2, 2], [1, -4, 3], [-1, -3, 4], [4, -2, -2], [2, -1, -1]]
                   ! ((j + 1) mod 7)))"
proof -
  from assms consider "j = 0" | "j = 1" | "j = 2" | "j = 3" | "j = 4" | "j = 5" | "j = 6"
    by linarith
  then show ?thesis
    by cases
      (simp_all add: weightedRoundRobin_def addWeights_def totalWeight_def bestIndex_def wAt_def
        jsIndex_def target_def Let_def)
qed

lemma cycle_shift:
  "j < 7 \<Longrightarrow>
   map (\<lambda>i. g ((j + i) mod 7)) [0..<Suc n] = g j # map (\<lambda>i. g (((j + 1) mod 7 + i) mod 7)) [0..<n]"
  by (simp add: map_upt_Suc mod_simps del: upt_Suc)

lemma wrr_run:
  "j < 7 \<Longrightarrow>
   pickTargets (WeightedRoundRobinLB [a, b, c] [5, 1, 1]
            ([[0, 0, 0], [-2, 1, 1], [-4, 2, 2], [1, -4, 3], [-1, -3, 4], [4, -2, -2], [2, -1, -1]] ! j))
       cs =
     Inr (map (\<lambda>i. [a, a, b, a, c, a, a] ! ((j + i) mod 7)) [0..<length cs],
          WeightedRoundRobinLB [a, b, c] [5, 1, 1]
            ([[0, 0, 0], [-2, 1, 1], [-4, 2, 2], [1, -4, 3], [-1, -3, 4], [4, -2, -2], [2, -1, -1]]
               ! ((j + length cs) mod 7)))"
proof (induction cs arbitrary: j)
  case Nil
  then show ?case by simp
next
  case (Cons x cs)
  let ?S = "[[0, 0, 0], [-2, 1, 1], [-4, 2, 2], [1, -4, 3], [-1, -3, 4], [4, -2, -2], [2, -1, -1]] :: int list list"
  let ?cyc = "[a, a, b, a, c, a, a]"
  let ?LB = "WeightedRoundRobinLB [a, b, c] [5, 1, 1]"
  have j': "(j + 1) mod 7 < 7" by simp
  have e: "((j + 1) mod 7 + length cs) mod 7 = (j + length (x # cs)) mod 7"
    by (simp add: mod_simps)
  have "pickTargets (?LB (?S ! j)) (x # cs) =
      (case pickTargets (?LB (?S ! ((j + 1) mod 7))) cs of
         Inl e \<Rightarrow> Inl e
       | Inr (ts, lb2) \<Rightarrow> Inr (?cyc ! j # ts, lb2))"
    by (simp only: pickTargets.simps wrr_step [OF Cons.prems] sum.case prod.case)
  also have "\<dots> = Inr (?cyc ! j # map (\<lambda>i. ?cyc ! (((j + 1) mod 7 + i) mod 7)) [0..<length cs],
                       ?LB (?S ! (((j + 1) mod 7 + length cs) mod 7)))"
    by (simp only: Cons.IH [OF j'] sum.case prod.case)
  also have "\<dots> = Inr (map (\<lambda>i. ?cyc ! ((j + i) mod 7)) [0..<length (x # cs)],
                       ?LB (?S ! ((j + length (x # cs)) mod 7)))"
    by (simp only: e length_Cons cycle_shift [OF Cons.prems, of "\<lambda>k. ?cyc ! k" "length cs"])
  finally show ?case .
qed

lemma window_counts:
  assumes "distinct [a, b, c]"
  shows "count_list (map (\<lambda>i. [a, a, b, a, c, a, a] ! (i mod 7)) [n..<n + 7]) a = 5
       \<and> count_list (map (\<lambda>i. [a, a, b, a, c, a, a] ! (i mod 7)) [n..<n + 7]) b = 1
       \<and> count_list (map (\<lambda>i. [a, a, b, a, c, a, a] ! (i mod 7)) [n..<n + 7]) c = 1"
proof -
  have "[n..<n + 7] = map (\<lambda>k. k + n) [0..<7]"
    by (simp only: map_add_upt add.commute [of n 7])
  then have L: "map (\<lambda>i. [a, a, b, a, c, a, a] ! (i mod 7)) [n..<n + 7]
      = map (\<lambda>k. [a, a, b, a, c, a, a] ! ((n mod 7 + k) mod 7)) [0..<7]"
    by (simp only: map_map comp_def mod_add_left_eq add.commute [of _ n])
  have u: "[0..<7] = [0, 1, 2, 3, 4, 5, 6::nat]"
    by (simp add: upt_conv_Cons)
  have "n mod 7 < 7" by simp
  then consider "n mod 7 = 0" | "n mod 7 = 1" | "n mod 7 = 2" | "n mod 7 = 3" | "n mod 7 = 4"
      | "n mod 7 = 5" | "n mod 7 = 6"
    by linarith
  then show ?thesis
    using assms unfolding L u
    by cases auto
qed

text \<open>
  Claim C2, as amended. With weights 5, 1, 1 over three distinct backends \<open>a\<close>, \<open>b\<close>, \<open>c\<close>
  the weighted-round-robin balancer starts with all counters 0, and any number of
  consecutive selections yields the sequence that repeats \<open>a, a, b, a, c, a, a\<close>. In
  every window of 7 consecutive selections \<open>a\<close> is chosen exactly 5 times and \<open>b\<close> and
  \<open>c\<close> exactly once each. (Consecutive picks of \<open>a\<close> do occur; see the counterexample
  below.)
\<close>

theorem C2_weighted_round_robin_5_1_1:
  assumes "distinct [a, b, c]"
  shows "createLoadBalancer WeightedRoundRobin [a, b, c] (Some [5, 1, 1]) =
           Inr (WeightedRoundRobinLB [a, b, c] [5, 1, 1] [0, 0, 0])
       \<and> (\<exists>lb. pickTargets (WeightedRoundRobinLB [a, b, c] [5, 1, 1] [0, 0, 0]) cs =
                  Inr (map (\<lambda>i. [a, a, b, a, c, a, a] ! (i mod 7)) [0..<length cs], lb))
       \<and> (n + 7 \<le> length cs \<longrightarrow>
            count_list (take 7 (drop n (map (\<lambda>i. [a, a, b, a, c, a, a] ! (i mod 7)) [0..<length cs]))) a = 5
          \<and> count_list (take 7 (drop n (map (\<lambda>i. [a, a, b, a, c, a, a] ! (i mod 7)) [0..<length cs]))) b = 1
          \<and> count_list (take 7 (drop n (map (\<lambda>i. [a, a, b, a, c, a, a] ! (i mod 7)) [0..<length cs]))) c = 1)"
proof -
  have c: "createLoadBalancer WeightedRoundRobin [a, b, c] (Some [5, 1, 1]) =
           Inr (WeightedRoundRobinLB [a, b, c] [5, 1, 1] [0, 0, 0])"
    by (simp add: createLoadBalancer_def ensureWeights_def numeral_3_eq_3)
  have r: "\<exists>lb. pickTargets (WeightedRoundRobinLB [a, b, c] [5, 1, 1] [0, 0, 0]) cs =
                  Inr (map (\<lambda>i. [a, a, b, a, c, a, a] ! (i mod 7)) [0..<length cs], lb)"
    using wrr_run [of 0 a b c cs] by simp
  have w: "take 7 (drop n (map f [0..<length cs])) = map f [n..<n + 7]"
    if "n + 7 \<le> length cs" for f :: "nat \<Rightarrow> jsstring"
    using that by (simp add: take_map drop_map take_upt drop_upt del: upt_Suc)
  show ?thesis
    using c r window_counts [OF assms, of n] by (simp add: w del: upt_Suc)
qed

theorem C2_weighted_round_robin_5_1_1_witness:
  "(\<exists>lb. pickTargets (WeightedRoundRobinLB [[65], [66], [67]] [5, 1, 1] [0, 0, 0])
            (replicate 12 (\<lparr>header_X_Client_ID = None, ip = None\<rparr>, 0)) =
          Inr (map (\<lambda>i. [[65], [65], [66], [65], [67], [65], [65]] ! (i mod 7)) [0..<12], lb))
 \<and> count_list (take 7 (drop 3 (map (\<lambda>i. [[65], [65], [66], [65], [67], [65], [65 :: 16 word]] ! (i mod 7))
      [0..<12]))) [65] = 5"
  using C2_weighted_round_robin_5_1_1 [where a = "[65]" and b = "[66]" and c = "[67]" and n = 3
      and cs = "replicate 12 (\<lparr>header_X_Client_ID = None, ip = None\<rparr>, 0)"]
  by (simp del: upt_Suc)

text \<open>
  Claim C2 as stated also says that no two consecutive picks are both A when a
  lower-counter alternative exists. The code does otherwise: from the fresh state the
  first five picks are A, A, B, A, C; the sixth pick is A and leaves the counters
  2, -1, -1; B and C then hold lower counters than A, before the weights are added and
  after (7, 0, 0), and the seventh pick is A again.
\<close>

theorem C2_consecutive_picks_counterexample:
  "pickTargets (WeightedRoundRobinLB [[65], [66], [67]] [5, 1, 1] [0, 0, 0])
       (replicate 5 (\<lparr>header_X_Client_ID = None, ip = None\<rparr>, 0)) =
     Inr ([[65], [65], [66], [65], [67]], WeightedRoundRobinLB [[65], [66], [67]] [5, 1, 1] [4, -2, -2])
   \<and> pickTarget (WeightedRoundRobinLB [[65], [66], [67]] [5, 1, 1] [4, -2, -2])
        \<lparr>header_X_Client_ID = None, ip = None\<rparr> 0 =
     Inr ([65], WeightedRoundRobinLB [[65], [66], [67]] [5, 1, 1] [2, -1, -1])
   \<and> lowerCounterAlternative [2, -1, -1] 0
   \<and> addWeights 3 [5, 1, 1] [2, -1, -1] = [7, 0, 0]
   \<and> lowerCounterAlternative [7, 0, 0] 0
   \<and> pickTarget (WeightedRoundRobinLB [[65], [66], [67]] [5, 1, 1] [2, -1, -1])
        \<lparr>header_X_Client_ID = None, ip = None\<rparr> 0 =
     Inr ([65], WeightedRoundRobinLB [[65], [66], [67]] [5, 1, 1] [0, 0, 0])"
  by (simp add: weightedRoundRobin_def addWeights_def totalWeight_def bestIndex_def wAt_def
        jsIndex_def target_def Let_def lowerCounterAlternative_def numeral_eq_Suc)

section \<open>The balancer: properties\<close>

lemma fold_best_mem:
  "fst (fold (\<lambda>s (best, bestCount). let c = g s in if c < bestCount then (s, c) else (best, bestCount))
          xs (b0, c0)) \<in> insert b0 (set xs)"
proof (induction xs arbitrary: b0 c0)
  case Nil
  show ?case by simp
next
  case (Cons x xs)
  show ?case
    using Cons.IH [of x "g x"] Cons.IH [of b0 c0] by (auto simp: Let_def)
qed

lemma leastConnections_shape:
  assumes "servers \<noteq> []"
  shows "\<exists>best\<in>set servers.
     leastConnections servers counts = (Some best, counts(best \<mapsto> getOr counts best 0 + 1))"
proof -
  define r where "r = fold (\<lambda>s (best, bestCount). let c = getOr counts s 0 in
             if c < bestCount then (s, c) else (best, bestCount))
       servers (hd servers, getOr counts (hd servers) 0)"
  have "fst r \<in> insert (hd servers) (set servers)"
    unfolding r_def by (rule fold_best_mem)
  then have mem: "fst r \<in> set servers"
    using assms by auto
  have "leastConnections servers counts = (case r of (best, bestCount) \<Rightarrow>
      (Some best, counts(best \<mapsto> getOr counts best 0 + 1)))"
    using assms unfolding r_def by (cases servers) (simp_all add: leastConnections_def del: fold_simps)
  then have "leastConnections servers counts = (Some (fst r), counts(fst r \<mapsto> getOr counts (fst r) 0 + 1))"
    by (simp add: split_beta)
  with mem show ?thesis by blast
qed

lemma fold_index_mem:
  "set is \<subseteq> {..<length servers} \<Longrightarrow>
   fst (fold (\<lambda>i (best, bestScore). let s = servers ! i; sc = g s i in
               if sc < bestScore then (s, sc) else (best, bestScore))
          is (b0, c0)) \<in> insert b0 (set servers)"
proof (induction "is" arbitrary: b0 c0)
  case Nil
  show ?case by simp
next
  case (Cons i "is")
  then have i: "servers ! i \<in> set servers" and sub: "set is \<subseteq> {..<length servers}"
    by simp_all
  show ?case
    using Cons.IH [OF sub, of "servers ! i" "g (servers ! i) i"] Cons.IH [OF sub, of b0 c0] i
    by (auto simp: Let_def)
qed

lemma weightedLeastConnections_shape:
  assumes "servers \<noteq> []"
  shows "\<exists>best\<in>set servers.
     weightedLeastConnections servers ws counts = (Some best, counts(best \<mapsto> getOr counts best 0 + 1))"
proof -
  define r where "r = fold (\<lambda>i (best, bestScore). let s = servers ! i; sc = score counts ws s i in
             if sc < bestScore then (s, sc) else (best, bestScore))
       [1..<length servers] (hd servers, score counts ws (hd servers) 0)"
  have "set [1..<length servers] \<subseteq> {..<length servers}" by auto
  then have "fst r \<in> insert (hd servers) (set servers)"
    unfolding r_def by (rule fold_index_mem)
  then have mem: "fst r \<in> set servers"
    using assms by auto
  have "weightedLeastConnections servers ws counts = (case r of (best, bestScore) \<Rightarrow>
      (Some best, counts(best \<mapsto> getOr counts best 0 + 1)))"
    using assms unfolding r_def
    by (cases servers) (simp_all add: weightedLeastConnections_def del: fold_simps upt_Suc)
  then have "weightedLeastConnections servers ws counts
      = (Some (fst r), counts(fst r \<mapsto> getOr counts (fst r) 0 + 1))"
    by (simp add: split_beta)
  with mem show ?thesis by blast
qed

lemma bestIndex_less: "0 < n \<Longrightarrow> bestIndex n current < n"
proof -
  assume n: "0 < n"
  have "b < n \<Longrightarrow> set is \<subseteq> {..<n} \<Longrightarrow>
      fold (\<lambda>i best. if current ! i > current ! best then i else best) is b < n" for "is" b
    by (induction "is" arbitrary: b) auto
  moreover have "set [1..<n] \<subseteq> {..<n}" by auto
  ultimately show ?thesis
    using n unfolding bestIndex_def by blast
qed

lemma nonNegative_zero: "nonNegative m \<Longrightarrow> nonNegative (m(s \<mapsto> 0))"
  by (simp add: nonNegative_def)

lemma nonNegative_initialCounts: "nonNegative (initialCounts servers)"
proof -
  have "nonNegative m \<Longrightarrow> nonNegative (fold (\<lambda>s counts. counts(s \<mapsto> 0)) servers m)" for m
    by (induction servers arbitrary: m) (simp_all add: nonNegative_zero)
  moreover have "nonNegative Map.empty"
    by (simp add: nonNegative_def)
  ultimately show ?thesis
    by (simp add: initialCounts_def)
qed

lemma nonNegative_getOr: "nonNegative counts \<Longrightarrow> 0 \<le> d \<Longrightarrow> 0 \<le> getOr counts s d"
  by (auto simp: nonNegative_def getOr_def split: option.splits)

lemma nonNegative_select:
  "nonNegative counts \<Longrightarrow> nonNegative (counts(best \<mapsto> getOr counts best 0 + 1))"
  using nonNegative_getOr [of counts 0 best] by (auto simp: nonNegative_def)

lemma nonNegative_release: "nonNegative counts \<Longrightarrow> nonNegative (releaseCount counts t)"
  by (auto simp: nonNegative_def releaseCount_def)

lemma jsIndex_nat: "i < length xs \<Longrightarrow> jsIndex xs (int i) = Some (xs ! i)"
  by (simp add: jsIndex_def)

lemma random_index:
  assumes "binary64 u = u" and "0 \<le> u" and "u < 1" and "servers \<noteq> []"
  shows "\<exists>t\<in>set servers. jsIndex servers \<lfloor>binary64 (u * of_nat (length servers))\<rfloor> = Some t"
proof -
  let ?n = "length servers"
  let ?y = "u * of_nat ?n"
  let ?i = "\<lfloor>binary64 ?y\<rfloor>"
  have n: "0 < ?n" using assms(4) by simp
  have "u \<le> 1 - 1 / 2 ^ 53"
    using assms(1,2,3) by (rule binary64_below_one)
  then have "of_nat ?n * u \<le> of_nat ?n * (1 - 1 / 2 ^ 53)"
    by (rule mult_left_mono) simp
  then have le: "?y \<le> of_nat ?n * (1 - 1 / 2 ^ 53)"
    by (simp only: mult.commute [of u])
  have y0: "0 \<le> ?y" using assms(2) by simp
  have "binary64 ?y < of_int (int ?n)"
    using binary64_product_below [OF y0 le n] by simp
  then have hi: "?i < int ?n"
    by (simp only: floor_less_iff)
  have "0 \<le> binary64 ?y"
    using y0 by (rule binary64_nonneg)
  then have lo: "0 \<le> ?i" by simp
  from lo hi have "nat ?i < ?n" by linarith
  then have mem: "servers ! nat ?i \<in> set servers" by (rule nth_mem)
  have "jsIndex servers ?i = Some (servers ! nat ?i)"
    using lo hi by (simp add: jsIndex_def)
  with mem show ?thesis by blast
qed

lemma createLoadBalancer_wellFormed:
  "servers \<noteq> [] \<Longrightarrow>
   \<exists>lb. createLoadBalancer strategy servers weights = Inr lb \<and> wellFormed servers lb"
  by (cases strategy) (simp_all add: createLoadBalancer_def)

lemma pickTarget_member:
  assumes "servers \<noteq> []" and "wellFormed servers lb"
    and "binary64 u = u" and "0 \<le> u" and "u < 1"
  shows "\<exists>t lb2. pickTarget lb req u = Inr (t, lb2) \<and> t \<in> set servers"
proof (cases lb)
  case (RandomLB ss)
  then show ?thesis
    using assms(2) random_index [OF assms(3,4,5,1)] by (auto simp: target_def)
next
  case (RoundRobinLB ss idx)
  then show ?thesis
    using assms by (simp add: target_def safeGet_def jsIndex_nat)
next
  case (WeightedRoundRobinLB ss ws current)
  have "bestIndex (length servers) (addWeights (length servers) ws current) < length servers"
    using assms(1) by (intro bestIndex_less) simp
  then show ?thesis
    using assms WeightedRoundRobinLB
    by (simp add: weightedRoundRobin_def Let_def target_def jsIndex_nat)
next
  case (LeastConnectionsLB ss counts)
  then show ?thesis
    using assms leastConnections_shape [OF assms(1), of counts] by (auto simp: target_def)
next
  case (WeightedLeastConnectionsLB ss ws counts)
  then show ?thesis
    using assms weightedLeastConnections_shape [OF assms(1), of ws counts] by (auto simp: target_def)
next
  case (IpHashLB ss)
  then show ?thesis
    using assms by (simp add: target_def jsIndex_nat)
next
  case (ConsistentHashLB ss ring)
  have ne: "buildRing servers \<noteq> []"
    using assms(1) buildRing_props(2) [of servers] by auto
  from ringLookup_refines [OF buildRing_props(1) ne, of servers "fnv1aHash (hashKey req)"]
  show ?thesis
    using assms ConsistentHashLB buildRing_props(3) [of servers] by auto
qed

lemma pickTarget_wellFormed:
  assumes "wellFormed servers lb" and "pickTarget lb req u = Inr (t, lb2)"
  shows "wellFormed servers lb2 \<and> tracksConnections lb2 = tracksConnections lb"
proof (cases lb)
  case (WeightedRoundRobinLB ss ws current)
  then show ?thesis
    using assms
    by (auto simp: weightedRoundRobin_def Let_def target_def addWeights_def split: option.splits)
next
  case (RoundRobinLB ss idx)
  then have "0 < length servers"
    using assms(1) by auto
  then have "Suc idx mod length servers < length servers"
    by simp
  then show ?thesis
    using assms RoundRobinLB by (auto simp: target_def split: option.splits)
qed (use assms in \<open>auto simp: target_def split: option.splits sum.splits prod.splits\<close>)

lemma step_wellFormed:
  "wellFormed servers lb \<Longrightarrow>
   wellFormed servers (step lb c) \<and> tracksConnections (step lb c) = tracksConnections lb"
proof (cases c)
  case (Select req u)
  assume "wellFormed servers lb"
  then show ?thesis
    using Select pickTarget_wellFormed [of servers lb req u]
    by (cases "pickTarget lb req u") auto
next
  case (Release t)
  assume "wellFormed servers lb"
  then show ?thesis
    using Release by (cases lb) simp_all
qed

lemma run_wellFormed:
  "wellFormed servers lb \<Longrightarrow>
   wellFormed servers (run lb cs) \<and> tracksConnections (run lb cs) = tracksConnections lb"
  unfolding run_def
  by (induction cs arbitrary: lb) (simp_all add: step_wellFormed)

lemma counting_select:
  assumes "servers \<noteq> []" and "wellFormed servers lb" and "tracksConnections lb"
  shows "\<exists>t lb2. pickTarget lb req u = Inr (t, lb2) \<and> t \<in> set servers
     \<and> countsOf lb2 = (countsOf lb)(t \<mapsto> getOr (countsOf lb) t 0 + 1)"
proof (cases lb)
  case (LeastConnectionsLB ss counts)
  then show ?thesis
    using assms leastConnections_shape [OF assms(1), of counts] by (auto simp: target_def)
next
  case (WeightedLeastConnectionsLB ss ws counts)
  then show ?thesis
    using assms weightedLeastConnections_shape [OF assms(1), of ws counts] by (auto simp: target_def)
qed (use assms in simp_all)

lemma counting_release:
  "tracksConnections lb \<Longrightarrow> countsOf (release lb t) = releaseCount (countsOf lb) t"
  by (cases lb) simp_all

lemma dom_initialCounts: "dom (initialCounts servers) = set servers"
proof -
  have "dom (fold (\<lambda>s counts. counts(s \<mapsto> 0)) servers m) = dom m \<union> set servers"
    for m :: "jsstring \<rightharpoonup> int"
    by (induction servers arbitrary: m) auto
  then show ?thesis
    by (simp add: initialCounts_def)
qed

lemma step_counts:
  assumes "servers \<noteq> []" and "wellFormed servers lb" and "tracksConnections lb"
    and "nonNegative (countsOf lb)" and "set servers \<subseteq> dom (countsOf lb)"
  shows "nonNegative (countsOf (step lb c)) \<and> set servers \<subseteq> dom (countsOf (step lb c))"
proof (cases c)
  case (Select req u)
  from counting_select [OF assms(1,2,3), of req u]
  obtain t lb2 where "pickTarget lb req u = Inr (t, lb2)"
      "countsOf lb2 = (countsOf lb)(t \<mapsto> getOr (countsOf lb) t 0 + 1)"
    by blast
  then show ?thesis
    using Select nonNegative_select [OF assms(4), of t] assms(5) by auto
next
  case (Release t)
  then show ?thesis
    using counting_release [OF assms(3), of t] nonNegative_release [OF assms(4), of t] assms(5)
    by (auto simp: releaseCount_def)
qed

lemma run_counts:
  assumes "servers \<noteq> []"
  shows "wellFormed servers lb \<Longrightarrow> tracksConnections lb \<Longrightarrow> nonNegative (countsOf lb) \<Longrightarrow>
     set servers \<subseteq> dom (countsOf lb) \<Longrightarrow>
     nonNegative (countsOf (run lb cs)) \<and> set servers \<subseteq> dom (countsOf (run lb cs))"
  unfolding run_def
proof (induction cs arbitrary: lb)
  case Nil
  then show ?case by simp
next
  case (Cons c cs)
  have "wellFormed servers (step lb c)" "tracksConnections (step lb c)"
    using step_wellFormed [OF Cons.prems(1), of c] Cons.prems(2) by simp_all
  moreover have "nonNegative (countsOf (step lb c))" "set servers \<subseteq> dom (countsOf (step lb c))"
    using step_counts [OF assms Cons.prems, of c] by simp_all
  ultimately show ?case
    using Cons.IH [of "step lb c"] by simp
qed

lemma createLoadBalancer_counting:
  assumes "strategy = LeastConnections \<or> strategy = WeightedLeastConnections" and "servers \<noteq> []"
  shows "\<exists>lb. createLoadBalancer strategy servers weights = Inr lb \<and> wellFormed servers lb
     \<and> tracksConnections lb \<and> nonNegative (countsOf lb) \<and> set servers \<subseteq> dom (countsOf lb)"
  using assms by (auto simp: createLoadBalancer_def nonNegative_initialCounts dom_initialCounts)

text \<open>
  Claim C6. For the least-connections and weighted-least-connections strategies, after
  any history \<open>cs\<close> of \<open>pickTarget\<close> and \<open>release\<close> calls on a balancer built for a
  non-empty server list every stored connection count is at least 0. \<open>pickTarget\<close>
  succeeds, returns one of the servers, and stores for it one more than the count \<open>c\<close>
  that was stored, leaving the other counts alone. \<open>release\<close> stores for the backend it
  names one less than the stored count, but not less than 0 (and 0 for a name that has
  no count), leaving the other counts alone; so releasing a backend whose count is 0
  leaves it at 0.
\<close>

theorem C6_connection_counts_never_negative:
  assumes "strategy = LeastConnections \<or> strategy = WeightedLeastConnections"
    and "servers \<noteq> []"
  shows "\<exists>lb0. createLoadBalancer strategy servers weights = Inr lb0
     \<and> (\<forall>s c. countsOf (run lb0 cs) s = Some c \<longrightarrow> 0 \<le> c)
     \<and> (\<exists>t lb2 c. pickTarget (run lb0 cs) req u = Inr (t, lb2) \<and> t \<in> set servers
           \<and> countsOf (run lb0 cs) t = Some c
           \<and> countsOf lb2 t = Some (c + 1)
           \<and> (\<forall>s. s \<noteq> t \<longrightarrow> countsOf lb2 s = countsOf (run lb0 cs) s))
     \<and> (\<forall>c. countsOf (run lb0 cs) t = Some c \<longrightarrow>
           countsOf (release (run lb0 cs) t) t = Some (max 0 (c - 1)))
     \<and> (countsOf (run lb0 cs) t = None \<longrightarrow> countsOf (release (run lb0 cs) t) t = Some 0)
     \<and> (\<forall>s. s \<noteq> t \<longrightarrow> countsOf (release (run lb0 cs) t) s = countsOf (run lb0 cs) s)
     \<and> (countsOf (run lb0 cs) t = Some 0 \<longrightarrow> countsOf (release (run lb0 cs) t) t = Some 0)"
proof -
  from createLoadBalancer_counting [OF assms, of weights]
  obtain lb0 where lb0: "createLoadBalancer strategy servers weights = Inr lb0"
      "wellFormed servers lb0" "tracksConnections lb0" "nonNegative (countsOf lb0)"
      "set servers \<subseteq> dom (countsOf lb0)"
    by blast
  let ?lb = "run lb0 cs"
  have wf: "wellFormed servers ?lb" and tr: "tracksConnections ?lb"
    using run_wellFormed [OF lb0(2), of cs] lb0(3) by simp_all
  have nn: "nonNegative (countsOf ?lb)" and cov: "set servers \<subseteq> dom (countsOf ?lb)"
    using run_counts [OF assms(2) lb0(2,3,4,5), of cs] by simp_all
  have 1: "\<forall>s c. countsOf ?lb s = Some c \<longrightarrow> 0 \<le> c"
    using nn by (simp add: nonNegative_def)
  from counting_select [OF assms(2) wf tr, of req u]
  obtain t' lb2 where sel: "pickTarget ?lb req u = Inr (t', lb2)" "t' \<in> set servers"
      "countsOf lb2 = (countsOf ?lb)(t' \<mapsto> getOr (countsOf ?lb) t' 0 + 1)"
    by blast
  from sel(2) cov obtain c where c: "countsOf ?lb t' = Some c"
    by auto
  have 2: "\<exists>t lb2 c. pickTarget ?lb req u = Inr (t, lb2) \<and> t \<in> set servers
           \<and> countsOf ?lb t = Some c
           \<and> countsOf lb2 t = Some (c + 1)
           \<and> (\<forall>s. s \<noteq> t \<longrightarrow> countsOf lb2 s = countsOf ?lb s)"
    using sel c by (intro exI [of _ t'] exI [of _ lb2] exI [of _ c]) (simp add: getOr_def)
  have 3: "countsOf (release ?lb t) = releaseCount (countsOf ?lb) t"
    using counting_release [OF tr] .
  show ?thesis
    using lb0(1) 1 2 by (auto simp: 3 releaseCount_def getOr_def)
qed

theorem C6_connection_counts_never_negative_witness:
  "\<exists>lb0. createLoadBalancer LeastConnections [[65], [66]] None = Inr lb0
     \<and> countsOf (release (run lb0 [Release [66], Release [66]]) [66]) [66] = Some 0"
  using C6_connection_counts_never_negative [where strategy = LeastConnections
      and servers = "[[65], [66]]" and weights = None and cs = "[Release [66], Release [66]]"
      and t = "[66]"]
  by (auto simp: createLoadBalancer_def run_def initialCounts_def releaseCount_def getOr_def)

text \<open>
  Claim C7. \<open>createLoadBalancer\<close> fails on an empty server list, for every strategy. On
  a non-empty list it succeeds, and after any history \<open>cs\<close> of calls \<open>pickTarget\<close>
  returns, for every request, a backend that is a member of the server list; \<open>u\<close> is
  the value of \<open>Math.random()\<close> in that call, a binary64 number from 0 up to but not
  including 1.
\<close>

theorem C7_select_never_fails:
  "createLoadBalancer strategy [] weights = Inl NoBackendServers
   \<and> (servers \<noteq> [] \<and> binary64 u = u \<and> 0 \<le> u \<and> u < 1 \<longrightarrow>
        (\<exists>lb0. createLoadBalancer strategy servers weights = Inr lb0
           \<and> (\<exists>t lb2. pickTarget (run lb0 cs) req u = Inr (t, lb2) \<and> t \<in> set servers)))"
proof -
  have a: "createLoadBalancer strategy [] weights = Inl NoBackendServers"
    by (simp add: createLoadBalancer_def)
  have b: "\<exists>lb0. createLoadBalancer strategy servers weights = Inr lb0
           \<and> (\<exists>t lb2. pickTarget (run lb0 cs) req u = Inr (t, lb2) \<and> t \<in> set servers)"
    if ne: "servers \<noteq> []" and u: "binary64 u = u" "0 \<le> u" "u < 1"
  proof -
    from createLoadBalancer_wellFormed [OF ne, of strategy weights]
    obtain lb0 where lb0: "createLoadBalancer strategy servers weights = Inr lb0"
        "wellFormed servers lb0"
      by blast
    have "wellFormed servers (run lb0 cs)"
      using run_wellFormed [OF lb0(2), of cs] by simp
    from pickTarget_member [OF ne this u, of req] lb0(1) show ?thesis
      by blast
  qed
  show ?thesis
    using a b by blast
qed

theorem C7_select_never_fails_witness:
  "createLoadBalancer Random [] None = Inl NoBackendServers
 \<and> (\<exists>lb0. createLoadBalancer Random [[65], [66], [67]] None = Inr lb0
        \<and> (\<exists>t lb2. pickTarget (run lb0 [Select \<lparr>header_X_Client_ID = None, ip = None\<rparr> (1 / 2),
                Release [65]]) \<lparr>header_X_Client_ID = None, ip = None\<rparr>
                (6004799503160661 / 2 ^ 54) = Inr (t, lb2)
              \<and> t \<in> set [[65], [66], [67]]))
 \<and> pickTarget (RandomLB [[65], [66], [67]]) \<lparr>header_X_Client_ID = None, ip = None\<rparr>
      (6004799503160661 / 2 ^ 54) = Inr ([66], RandomLB [[65], [66], [67]])"
proof -
  have d: "binary64 (6004799503160661 / 2 ^ 54) = 6004799503160661 / 2 ^ 54"
    by code_simp
  have f: "\<lfloor>binary64 (6004799503160661 / 2 ^ 54 * of_nat (length [[65], [66], [67 :: 16 word]]))\<rfloor> = 1"
    by code_simp
  have 1: "createLoadBalancer Random [] None = Inl NoBackendServers
    \<and> (\<exists>lb0. createLoadBalancer Random [[65], [66], [67]] None = Inr lb0
        \<and> (\<exists>t lb2. pickTarget (run lb0 [Select \<lparr>header_X_Client_ID = None, ip = None\<rparr> (1 / 2),
                Release [65]]) \<lparr>header_X_Client_ID = None, ip = None\<rparr>
                (6004799503160661 / 2 ^ 54) = Inr (t, lb2)
              \<and> t \<in> set [[65], [66], [67]]))"
    using C7_select_never_fails [where strategy = Random and servers = "[[65], [66], [67]]"
      and weights = None and u = "6004799503160661 / 2 ^ 54"
      and cs = "[Select \<lparr>header_X_Client_ID = None, ip = None\<rparr> (1 / 2), Release [65]]"
      and req = "\<lparr>header_X_Client_ID = None, ip = None\<rparr>"] d
    by simp
  have 2: "pickTarget (RandomLB [[65], [66], [67]]) \<lparr>header_X_Client_ID = None, ip = None\<rparr>
      (6004799503160661 / 2 ^ 54) = Inr ([66], RandomLB [[65], [66], [67]])"
    unfolding pickTarget.simps f by (simp add: target_def jsIndex_def)
  show ?thesis
    using 1 2 by blast
qed

text \<open>
  Claim C10. For a request with neither a non-empty identity header nor a non-empty
  network address the two hash strategies use the empty string as key, whose hash is
  the FNV offset basis 2166136261, and return a backend all the same: ip-hash the
  server at index \<open>2166136261 mod length servers\<close>, consistent-hash the server the ring
  gives for that hash. Neither result depends on the request, so all such requests
  are sent to one backend of a given pool.
\<close>

theorem C10_hash_strategies_without_identity:
  assumes "servers \<noteq> []"
    and "\<not> truthy (header_X_Client_ID req)" and "\<not> truthy (ip req)"
  shows "hashKey req = []
     \<and> fnv1aHash (hashKey req) = 2166136261
     \<and> createLoadBalancer IpHash servers weights = Inr (IpHashLB servers)
     \<and> pickTarget (IpHashLB servers) req u =
         Inr (servers ! (2166136261 mod length servers), IpHashLB servers)
     \<and> servers ! (2166136261 mod length servers) \<in> set servers
     \<and> createLoadBalancer ConsistentHash servers weights =
         Inr (ConsistentHashLB servers (buildRing servers))
     \<and> (\<exists>s. s \<in> set servers
            \<and> pickTarget (ConsistentHashLB servers (buildRing servers)) req u =
                Inr (s, ConsistentHashLB servers (buildRing servers))
            \<and> spec_firstAtLeast (buildRing servers) 2166136261 = Some s)"
proof -
  have k: "hashKey req = []"
    using assms(2,3)
    by (auto simp: hashKey_def clientIP_def js_or_def truthy_def split: option.splits)
  have h: "fnv1aHash (hashKey req) = 2166136261"
    by (simp add: k fnv1aHash_def)
  have n: "0 < length servers" using assms(1) by simp
  have m: "2166136261 mod length servers < length servers"
    using n by simp
  have u32: "unat (2166136261 :: 32 word) = 2166136261"
    by simp
  have i: "pickTarget (IpHashLB servers) req u =
         Inr (servers ! (2166136261 mod length servers), IpHashLB servers)"
    using m by (simp add: h u32 target_def jsIndex_nat)
  have ne: "buildRing servers \<noteq> []"
    using assms(1) buildRing_props(2) [of servers] by auto
  from ringLookup_refines [OF buildRing_props(1) ne, of servers 2166136261]
  obtain s where s: "ringLookup servers (buildRing servers) 2166136261 = Inr s"
      "spec_firstAtLeast (buildRing servers) 2166136261 = Some s"
      "s \<in> server ` set (buildRing servers)"
    by blast
  have c: "\<exists>s. s \<in> set servers
            \<and> pickTarget (ConsistentHashLB servers (buildRing servers)) req u =
                Inr (s, ConsistentHashLB servers (buildRing servers))
            \<and> spec_firstAtLeast (buildRing servers) 2166136261 = Some s"
    using s buildRing_props(3) [of servers] by (intro exI [of _ s]) (auto simp: h)
  show ?thesis
    using k h i c m assms(1) by (simp add: createLoadBalancer_def)
qed

theorem C10_hash_strategies_without_identity_witness:
  "pickTarget (IpHashLB [[65], [66], [67]]) \<lparr>header_X_Client_ID = None, ip = Some []\<rparr> 0 =
     Inr ([66], IpHashLB [[65], [66], [67]])"
  using C10_hash_strategies_without_identity [where servers = "[[65], [66], [67]]"
      and req = "\<lparr>header_X_Client_ID = None, ip = Some []\<rparr>" and u = 0 and weights = None]
  by (simp add: truthy_def del: pickTarget.simps)

end
